theory Spec2Isabelle
  imports Main "HOL-Library.Word"
begin

unbundle bit_operations_syntax

section \<open>Values shared by the modules\<close>

text \<open>
  A \<open>Uint8Array\<close> is a list of 8-bit words.  JavaScript numbers that count bytes or bits
  are natural numbers; indices that the code may drive below zero are integers.
  A thrown exception is a value of type \<open>error\<close>; a function that can throw returns
  \<open>error + 'a\<close> with the exception on the left.
\<close>

type_synonym byte = "8 word"
type_synonym uint8array = "byte list"

datatype error = Error string | RangeError string

text \<open>
  \<open>bytes[i]\<close>: reading a typed array outside its bounds gives \<open>undefined\<close>, here
  \<open>None\<close>.  Inside a bitwise operator \<open>undefined\<close> counts as 0 (\<open>toInt32\<close>).
\<close>

definition at :: "uint8array \<Rightarrow> int \<Rightarrow> byte option" where
  "at bytes i = (if 0 \<le> i \<and> i < int (length bytes) then Some (bytes ! nat i) else None)"

definition toInt32 :: "byte option \<Rightarrow> nat" where
  "toInt32 v = (case v of None \<Rightarrow> 0 | Some b \<Rightarrow> unat b)"

text \<open>
  \<open>TypedArray.prototype.subarray(begin, end)\<close>: a negative index counts from the end, both
  indices are clamped to the array, and an empty range gives the empty array.
\<close>

definition relIndex :: "nat \<Rightarrow> int \<Rightarrow> nat" where
  "relIndex len i = (if i < 0 then nat (max (int len + i) 0) else min (nat i) len)"

definition subarray :: "uint8array \<Rightarrow> int \<Rightarrow> int \<Rightarrow> uint8array" where
  "subarray bytes begin end =
     (let b = relIndex (length bytes) begin; e = relIndex (length bytes) end
      in take (e - b) (drop b bytes))"

definition subarrayFrom :: "uint8array \<Rightarrow> int \<Rightarrow> uint8array" where
  "subarrayFrom bytes begin = subarray bytes begin (int (length bytes))"

text \<open>\<open>stream.concatUint8Array\<close>: the arrays one after the other in a fresh array.\<close>

definition concatUint8Array :: "uint8array list \<Rightarrow> uint8array" where
  "concatUint8Array arrays = concat arrays"

section \<open>Multi-precision integers (module util)\<close>

text \<open>
  \<open>util.nbits(x)\<close>: five shift-and-test steps with the widths 16, 8, 4, 2, 1.  Each step
  keeps the shifted value and adds the width when the shifted value is not zero.
\<close>

definition nbits_step :: "nat \<Rightarrow> nat \<times> nat \<Rightarrow> nat \<times> nat" where
  "nbits_step k xr = (case xr of (x, r) \<Rightarrow>
     (let t = drop_bit k x in if t \<noteq> 0 then (t, r + k) else (x, r)))"

definition nbits :: "nat \<Rightarrow> nat" where
  "nbits x =
     snd (nbits_step 1 (nbits_step 2 (nbits_step 4 (nbits_step 8 (nbits_step 16 (x, 1))))))"

text \<open>
  \<open>util.uint8ArrayBitLength(bin)\<close>.  The \<open>for\<close> loop with \<open>break\<close> that finds the index
  of the leading non-zero byte is \<open>firstNonZero\<close>.
\<close>

function firstNonZero :: "uint8array \<Rightarrow> nat \<Rightarrow> nat" where
  "firstNonZero bin i =
     (if i < length bin then (if bin ! i \<noteq> 0 then i else firstNonZero bin (i + 1)) else i)"
  by pat_completeness auto
termination
  by (relation "measure (\<lambda>(bin, i). length bin - i)") auto

declare firstNonZero.simps [simp del]

definition uint8ArrayBitLength :: "uint8array \<Rightarrow> nat" where
  "uint8ArrayBitLength bin =
     (let i = firstNonZero bin 0 in
      if i = length bin then 0
      else (let stripped = subarrayFrom bin (int i)
            in (length stripped - 1) * 8 + nbits (toInt32 (at stripped 0))))"

text \<open>
  \<open>util.uint8ArrayToMPI(bin)\<close>.  \<open>Math.ceil(bitSize / 8)\<close> is \<open>(bitSize + 7) div 8\<close>;
  \<open>new Uint8Array([a, b])\<close> stores each number modulo 256.
\<close>

definition uint8ArrayToMPI :: "uint8array \<Rightarrow> error + uint8array" where
  "uint8ArrayToMPI bin =
     (let bitSize = uint8ArrayBitLength bin in
      if bitSize = 0 then Inl (Error ''Zero MPI'')
      else (let stripped = subarrayFrom bin (int (length bin) - int ((bitSize + 7) div 8));
                prefix = [of_nat (drop_bit 8 (bitSize AND 0xFF00)), of_nat (bitSize AND 0xFF)]
            in Inr (concatUint8Array [prefix, stripped])))"

text \<open>
  \<open>util.readMPI(bytes)\<close>.  The function has no \<open>throw\<close>: a missing length byte reads as
  \<open>undefined\<close> and counts as 0, and \<open>subarray\<close> clamps the range to the input.
\<close>

definition readMPI :: "uint8array \<Rightarrow> uint8array" where
  "readMPI bytes =
     (let bits = push_bit 8 (toInt32 (at bytes 0)) OR toInt32 (at bytes 1);
          bytelen = drop_bit 3 (bits + 7)
      in subarray bytes 2 (2 + int bytelen))"

text \<open>Writing an MPI and reading the written bytes back; the writer's exception is kept.\<close>

definition writeThenReadMPI :: "uint8array \<Rightarrow> error + uint8array" where
  "writeThenReadMPI m = (case uint8ArrayToMPI m of Inl e \<Rightarrow> Inl e | Inr out \<Rightarrow> Inr (readMPI out))"

section \<open>Enumerations (module enums)\<close>

text \<open>
  An enumeration is an object literal: a list of its own properties in the order
  \<open>Object.entries\<close> gives them (the order of the source; no name is an array index).
  A property value is a number or, in \<open>enums.curve\<close>, a string.
\<close>

datatype jsval = Num int | Str string

type_synonym enum_table = "(string \<times> jsval) list"

definition enums_curve :: enum_table where
  "enums_curve =
    [(''p256'', Str ''p256''), (''P-256'', Str ''p256''), (''secp256r1'', Str ''p256''),
     (''prime256v1'', Str ''p256''), (''1.2.840.10045.3.1.7'', Str ''p256''),
     (''2a8648ce3d030107'', Str ''p256''), (''2A8648CE3D030107'', Str ''p256''),
     (''p384'', Str ''p384''), (''P-384'', Str ''p384''), (''secp384r1'', Str ''p384''),
     (''1.3.132.0.34'', Str ''p384''), (''2b81040022'', Str ''p384''),
     (''2B81040022'', Str ''p384''), (''p521'', Str ''p521''), (''P-521'', Str ''p521''),
     (''secp521r1'', Str ''p521''), (''1.3.132.0.35'', Str ''p521''),
     (''2b81040023'', Str ''p521''), (''2B81040023'', Str ''p521''),
     (''secp256k1'', Str ''secp256k1''), (''1.3.132.0.10'', Str ''secp256k1''),
     (''2b8104000a'', Str ''secp256k1''), (''2B8104000A'', Str ''secp256k1''),
     (''ed25519Legacy'', Str ''ed25519''), (''ED25519'', Str ''ed25519''),
     (''ed25519'', Str ''ed25519''), (''Ed25519'', Str ''ed25519''),
     (''1.3.6.1.4.1.11591.15.1'', Str ''ed25519''), (''2b06010401da470f01'', Str ''ed25519''),
     (''2B06010401DA470F01'', Str ''ed25519''), (''curve25519Legacy'', Str ''curve25519''),
     (''X25519'', Str ''curve25519''), (''cv25519'', Str ''curve25519''),
     (''curve25519'', Str ''curve25519''), (''Curve25519'', Str ''curve25519''),
     (''1.3.6.1.4.1.3029.1.5.1'', Str ''curve25519''),
     (''2b060104019755010501'', Str ''curve25519''),
     (''2B060104019755010501'', Str ''curve25519''),
     (''brainpoolP256r1'', Str ''brainpoolP256r1''),
     (''1.3.36.3.3.2.8.1.1.7'', Str ''brainpoolP256r1''),
     (''2b2403030208010107'', Str ''brainpoolP256r1''),
     (''2B2403030208010107'', Str ''brainpoolP256r1''),
     (''brainpoolP384r1'', Str ''brainpoolP384r1''),
     (''1.3.36.3.3.2.8.1.1.11'', Str ''brainpoolP384r1''),
     (''2b240303020801010b'', Str ''brainpoolP384r1''),
     (''2B240303020801010B'', Str ''brainpoolP384r1''),
     (''brainpoolP512r1'', Str ''brainpoolP512r1''),
     (''1.3.36.3.3.2.8.1.1.13'', Str ''brainpoolP512r1''),
     (''2b240303020801010d'', Str ''brainpoolP512r1''),
     (''2B240303020801010D'', Str ''brainpoolP512r1'')]"

definition enums_s2k :: enum_table where
  "enums_s2k =
    [(''simple'', Num 0), (''salted'', Num 1), (''iterated'', Num 3), (''gnu'', Num 101)]"

definition enums_publicKey :: enum_table where
  "enums_publicKey =
    [(''rsaEncryptSign'', Num 1), (''rsaEncrypt'', Num 2), (''rsaSign'', Num 3),
     (''elgamal'', Num 16), (''dsa'', Num 17), (''ecdh'', Num 18), (''ecdsa'', Num 19),
     (''eddsaLegacy'', Num 22), (''ed25519Legacy'', Num 22), (''eddsa'', Num 22),
     (''aedh'', Num 23), (''aedsa'', Num 24), (''x25519'', Num 25), (''x448'', Num 26),
     (''ed25519'', Num 27), (''ed448'', Num 28)]"

definition enums_symmetric :: enum_table where
  "enums_symmetric =
    [(''plaintext'', Num 0), (''idea'', Num 1), (''tripledes'', Num 2), (''cast5'', Num 3),
     (''blowfish'', Num 4), (''aes128'', Num 7), (''aes192'', Num 8), (''aes256'', Num 9),
     (''twofish'', Num 10)]"

definition enums_compression :: enum_table where
  "enums_compression =
    [(''uncompressed'', Num 0), (''zip'', Num 1), (''zlib'', Num 2), (''bzip2'', Num 3)]"

definition enums_hash :: enum_table where
  "enums_hash =
    [(''md5'', Num 1), (''sha1'', Num 2), (''ripemd'', Num 3), (''sha256'', Num 8),
     (''sha384'', Num 9), (''sha512'', Num 10), (''sha224'', Num 11)]"

definition enums_webHash :: enum_table where
  "enums_webHash =
    [(''SHA-1'', Num 2), (''SHA-256'', Num 8), (''SHA-384'', Num 9), (''SHA-512'', Num 10)]"

definition enums_aead :: enum_table where
  "enums_aead =
    [(''eax'', Num 1), (''ocb'', Num 2), (''experimentalGCM'', Num 100)]"

definition enums_packet :: enum_table where
  "enums_packet =
    [(''publicKeyEncryptedSessionKey'', Num 1), (''signature'', Num 2),
     (''symEncryptedSessionKey'', Num 3), (''onePassSignature'', Num 4),
     (''secretKey'', Num 5), (''publicKey'', Num 6), (''secretSubkey'', Num 7),
     (''compressedData'', Num 8), (''symmetricallyEncryptedData'', Num 9),
     (''marker'', Num 10), (''literalData'', Num 11), (''trust'', Num 12),
     (''userID'', Num 13), (''publicSubkey'', Num 14), (''userAttribute'', Num 17),
     (''symEncryptedIntegrityProtectedData'', Num 18), (''modificationDetectionCode'', Num 19),
     (''aeadEncryptedData'', Num 20)]"

definition enums_literal :: enum_table where
  "enums_literal =
    [(''binary'', Num 98), (''text'', Num 116), (''utf8'', Num 117), (''mime'', Num 109)]"

definition enums_signature :: enum_table where
  "enums_signature =
    [(''binary'', Num 0), (''text'', Num 1), (''standalone'', Num 2),
     (''certGeneric'', Num 16), (''certPersona'', Num 17), (''certCasual'', Num 18),
     (''certPositive'', Num 19), (''certRevocation'', Num 48), (''subkeyBinding'', Num 24),
     (''keyBinding'', Num 25), (''key'', Num 31), (''keyRevocation'', Num 32),
     (''subkeyRevocation'', Num 40), (''timestamp'', Num 64), (''thirdParty'', Num 80)]"

definition enums_signatureSubpacket :: enum_table where
  "enums_signatureSubpacket =
    [(''signatureCreationTime'', Num 2), (''signatureExpirationTime'', Num 3),
     (''exportableCertification'', Num 4), (''trustSignature'', Num 5),
     (''regularExpression'', Num 6), (''revocable'', Num 7), (''keyExpirationTime'', Num 9),
     (''placeholderBackwardsCompatibility'', Num 10),
     (''preferredSymmetricAlgorithms'', Num 11), (''revocationKey'', Num 12),
     (''issuer'', Num 16), (''notationData'', Num 20), (''preferredHashAlgorithms'', Num 21),
     (''preferredCompressionAlgorithms'', Num 22), (''keyServerPreferences'', Num 23),
     (''preferredKeyServer'', Num 24), (''primaryUserID'', Num 25), (''policyURI'', Num 26),
     (''keyFlags'', Num 27), (''signersUserID'', Num 28), (''reasonForRevocation'', Num 29),
     (''features'', Num 30), (''signatureTarget'', Num 31), (''embeddedSignature'', Num 32),
     (''issuerFingerprint'', Num 33), (''preferredAEADAlgorithms'', Num 34)]"

definition enums_keyFlags :: enum_table where
  "enums_keyFlags =
    [(''certifyKeys'', Num 1), (''signData'', Num 2), (''encryptCommunication'', Num 4),
     (''encryptStorage'', Num 8), (''splitPrivateKey'', Num 16), (''authentication'', Num 32),
     (''sharedPrivateKey'', Num 128)]"

definition enums_armor :: enum_table where
  "enums_armor =
    [(''multipartSection'', Num 0), (''multipartLast'', Num 1), (''signed'', Num 2),
     (''message'', Num 3), (''publicKey'', Num 4), (''privateKey'', Num 5),
     (''signature'', Num 6)]"

definition enums_reasonForRevocation :: enum_table where
  "enums_reasonForRevocation =
    [(''noReason'', Num 0), (''keySuperseded'', Num 1), (''keyCompromised'', Num 2),
     (''keyRetired'', Num 3), (''userIDInvalid'', Num 32)]"

definition enums_features :: enum_table where
  "enums_features =
    [(''modificationDetection'', Num 1), (''aead'', Num 2), (''v5Keys'', Num 4)]"

text \<open>The enumerations of the module, in the order of the source.\<close>

definition enums_tables :: "enum_table list" where
  "enums_tables =
    [enums_curve, enums_s2k, enums_publicKey, enums_symmetric, enums_compression, enums_hash,
     enums_webHash, enums_aead, enums_packet, enums_literal, enums_signature,
     enums_signatureSubpacket, enums_keyFlags, enums_armor, enums_reasonForRevocation,
     enums_features]"

text \<open>
  A property key is a string: \<open>arr[value] = key\<close> and \<open>arr[e]\<close> turn a number into its
  decimal digits first (\<open>numberToString\<close>, for integers).
\<close>

definition digitChar :: "nat \<Rightarrow> char" where
  "digitChar d = char_of (48 + d)"

function digits :: "nat \<Rightarrow> string" where
  "digits n = (if n < 10 then [digitChar n] else digits (n div 10) @ [digitChar (n mod 10)])"
  by pat_completeness auto
termination
  by (relation "measure id") auto

declare digits.simps [simp del]

definition numberToString :: "int \<Rightarrow> string" where
  "numberToString i = (if i < 0 then CHR ''-'' # digits (nat (- i)) else digits (nat i))"

definition propertyKey :: "jsval \<Rightarrow> string" where
  "propertyKey v = (case v of Num i \<Rightarrow> numberToString i | Str s \<Rightarrow> s)"

text \<open>
  \<open>enums.read(type, e)\<close>.  On the first call the array \<open>type[byValue]\<close> is filled from the
  entries, a later entry overwriting an earlier one with the same value; the array is a
  function of the table, so it is recomputed here instead of cached.
\<close>

definition byValue :: "enum_table \<Rightarrow> (string \<rightharpoonup> string)" where
  "byValue type = fold (\<lambda>(key, value) arr. arr(propertyKey value \<mapsto> key)) type Map.empty"

definition enums_read :: "enum_table \<Rightarrow> int \<Rightarrow> error + string" where
  "enums_read type e =
     (case byValue type (numberToString e) of
        Some name \<Rightarrow> Inr name
      | None \<Rightarrow> Inl (Error ''Invalid enum value.''))"

text \<open>
  \<open>enums.write(type, e)\<close>: a number goes through \<open>read\<close> first, then the name is looked up
  among the table's own properties.
\<close>

definition enums_write :: "enum_table \<Rightarrow> jsval \<Rightarrow> error + jsval" where
  "enums_write type e =
     (case (case e of Num i \<Rightarrow> enums_read type i | Str s \<Rightarrow> Inr s) of
        Inl err \<Rightarrow> Inl err
      | Inr name \<Rightarrow>
          (case map_of type name of
             Some v \<Rightarrow> Inr v
           | None \<Rightarrow> Inl (Error ''Invalid enum value.'')))"

text \<open>Characters \<open>0\<close> to \<open>9\<close>.\<close>

definition isDigit :: "char \<Rightarrow> bool" where
  "isDigit c = (48 \<le> (of_char c :: nat) \<and> (of_char c :: nat) \<le> 57)"

text \<open>A string value of a table that does not look like a number.\<close>

definition wordLike :: "jsval \<Rightarrow> bool" where
  "wordLike v = (case v of Num i \<Rightarrow> True
     | Str s \<Rightarrow> s = [] \<or> (hd s \<noteq> CHR ''-'' \<and> \<not> isDigit (hd s)))"

section \<open>GCM nonce (module crypto/mode/gcm)\<close>

text \<open>
  \<open>GCM.getNonce\<close> copies its argument and updates the copy in place, so arrays are
  objects here: a heap is the list of the arrays allocated so far and a reference is a
  position in it.  \<open>iv.slice()\<close> allocates a new array with the bytes of \<open>iv\<close>.
\<close>

type_synonym ref = nat
type_synonym heap = "uint8array list"

definition slice :: "heap \<Rightarrow> ref \<Rightarrow> heap \<times> ref" where
  "slice h a = (h @ [h ! a], length h)"

text \<open>
  \<open>a[i] ^= v\<close> on a typed array: the element read counts as 0 when \<open>i\<close> is out of range,
  the result is stored modulo 256, and a store out of range is ignored.
\<close>

definition xorAssign :: "heap \<Rightarrow> ref \<Rightarrow> nat \<Rightarrow> nat \<Rightarrow> heap" where
  "xorAssign h a i v =
     h[a := (h ! a)[i := of_nat (toInt32 (at (h ! a) (int i)) XOR v)]]"

lemma length_xorAssign [simp]: "length (xorAssign h a i v) = length h"
  by (simp add: xorAssign_def)

lemma xorAssign_length_nth [simp]: "length (xorAssign h a i v ! c) = length (h ! c)"
  by (cases "a < length h"; cases "a = c") (simp_all add: xorAssign_def list_update_beyond)

text \<open>The \<open>for\<close> loop of \<open>GCM.getNonce\<close>, from index \<open>i\<close> on.\<close>

function getNonce_loop :: "heap \<Rightarrow> ref \<Rightarrow> ref \<Rightarrow> nat \<Rightarrow> heap" where
  "getNonce_loop h nonce chunkIndex i =
     (if i < length (h ! chunkIndex)
      then getNonce_loop
             (xorAssign h nonce (4 + i) (toInt32 (at (h ! chunkIndex) (int i))))
             nonce chunkIndex (i + 1)
      else h)"
  by pat_completeness auto
termination
  by (relation "measure (\<lambda>(h, nonce, chunkIndex, i). length (h ! chunkIndex) - i)") auto

declare getNonce_loop.simps [simp del]

definition getNonce :: "heap \<Rightarrow> ref \<Rightarrow> ref \<Rightarrow> heap \<times> ref" where
  "getNonce h iv chunkIndex =
     (case slice h iv of (h1, nonce) \<Rightarrow> (getNonce_loop h1 nonce chunkIndex 0, nonce))"

section \<open>Line endings (util.canonicalizeEOL)\<close>

definition CR :: byte where "CR = 13"
definition LF :: byte where "LF = 10"

text \<open>
  \<open>TypedArray.prototype.indexOf(v, i)\<close> for \<open>i \<ge> 0\<close>: the first position from \<open>i\<close> on
  that holds \<open>v\<close>, or \<open>-1\<close>.
\<close>

function indexOf :: "uint8array \<Rightarrow> byte \<Rightarrow> nat \<Rightarrow> int" where
  "indexOf bytes v i =
     (if i < length bytes then (if bytes ! i = v then int i else indexOf bytes v (i + 1)) else - 1)"
  by pat_completeness auto
termination
  by (relation "measure (\<lambda>(bytes, v, i). length bytes - i)") auto

declare indexOf.simps [simp del]

lemma indexOf_range:
  "indexOf bytes v i = - 1 \<or> (int i \<le> indexOf bytes v i \<and> indexOf bytes v i < int (length bytes))"
proof (induction bytes v i rule: indexOf.induct)
  case (1 bytes v i)
  then show ?case by (subst (1 2 3) indexOf.simps) auto
qed

text \<open>
  The first loop of the chunk function, from \<open>i\<close> on, with the indices pushed so far:
  \<open>index\<close> is one more than the position of the next LF, and it is pushed unless the byte
  before that LF is CR (\<open>bytes[index - 2]\<close> is \<open>undefined\<close> for an LF at position 0).
\<close>

function eolIndices :: "uint8array \<Rightarrow> nat \<Rightarrow> nat list \<Rightarrow> nat list" where
  "eolIndices bytes i indices =
     (let index = indexOf bytes LF i + 1 in
      if index \<noteq> 0
      then eolIndices bytes (nat index)
             (if at bytes (index - 2) \<noteq> Some CR then indices @ [nat index] else indices)
      else indices)"
  by pat_completeness auto
termination
proof (relation "measure (\<lambda>(bytes, i, indices). length bytes - i)", goal_cases)
  case 1
  show ?case by simp
next
  case (2 bytes i indices index)
  then show ?case using indexOf_range [of bytes LF i] by auto
qed

declare eolIndices.simps [simp del]

text \<open>
  \<open>target.set(source, offset)\<close> throws a \<open>RangeError\<close> when the source does not fit;
  \<open>arr[i] = v\<close> outside the array is ignored; \<open>indices[i] || 0\<close> is 0 for a missing
  element.
\<close>

definition typedSet :: "uint8array \<Rightarrow> uint8array \<Rightarrow> nat \<Rightarrow> error + uint8array" where
  "typedSet target source offset =
     (if length target < offset + length source then Inl (RangeError ''offset is out of bounds'')
      else Inr (take offset target @ source @ drop (offset + length source) target))"

definition storeAt :: "uint8array \<Rightarrow> int \<Rightarrow> byte \<Rightarrow> uint8array" where
  "storeAt arr i v = (if 0 \<le> i \<and> i < int (length arr) then arr[nat i := v] else arr)"

definition orZero :: "nat list \<Rightarrow> int \<Rightarrow> nat" where
  "orZero indices i = (if 0 \<le> i \<and> i < int (length indices) then indices ! nat i else 0)"

text \<open>
  The second loop, from \<open>i\<close> on, with the array \<open>normalized\<close> and the write position
  \<open>j\<close> as its state.
\<close>

function normalize_loop ::
  "uint8array \<Rightarrow> nat list \<Rightarrow> nat \<Rightarrow> uint8array \<Rightarrow> nat \<Rightarrow> error + uint8array \<times> nat" where
  "normalize_loop bytes indices i normalized j =
     (if i < length indices
      then (let sub = subarray bytes (int (orZero indices (int i - 1))) (int (indices ! i))
            in case typedSet normalized sub j of
                 Inl e \<Rightarrow> Inl e
               | Inr n1 \<Rightarrow>
                   (let j1 = j + length sub;
                        n2 = storeAt n1 (int j1 - 1) CR;
                        n3 = storeAt n2 (int j1) LF
                    in normalize_loop bytes indices (i + 1) n3 (j1 + 1)))
      else Inr (normalized, j))"
  by pat_completeness auto
termination
  by (relation "measure (\<lambda>(bytes, indices, i, normalized, j). length indices - i)") auto

declare normalize_loop.simps [simp del]

text \<open>
  The function given to \<open>stream.transform\<close>, with the closure variable \<open>carryOverCR\<close>
  passed in and returned.
\<close>

definition canonicalizeChunk :: "bool \<Rightarrow> uint8array \<Rightarrow> error + bool \<times> uint8array" where
  "canonicalizeChunk carryOverCR chunk =
     (let bytes1 = (if carryOverCR then concatUint8Array [[CR], chunk] else chunk);
          endsWithCR = (at bytes1 (int (length bytes1) - 1) = Some CR);
          bytes = (if endsWithCR then subarray bytes1 0 (- 1) else bytes1);
          indices = eolIndices bytes 0 []
      in if length indices = 0 then Inr (endsWithCR, bytes)
         else (let normalized = replicate (length bytes + length indices) 0
               in case normalize_loop bytes indices 0 normalized 0 of
                    Inl e \<Rightarrow> Inl e
                  | Inr (filled, j) \<Rightarrow>
                      (case typedSet filled
                              (subarrayFrom bytes
                                 (int (orZero indices (int (length indices) - 1)))) j of
                         Inl e \<Rightarrow> Inl e
                       | Inr out \<Rightarrow> Inr (endsWithCR, out))))"

text \<open>
  \<open>stream.transform(data, process, finish)\<close> belongs to the library web-stream-tools: it
  calls \<open>process\<close> on each chunk of the input in order, then \<open>finish\<close>, and its output is
  the results one after the other (\<open>undefined\<close> contributes nothing).  An input that is
  one array is the input of one chunk.
\<close>

fun transformEOL :: "bool \<Rightarrow> uint8array list \<Rightarrow> error + uint8array" where
  "transformEOL carryOverCR [] = Inr (if carryOverCR then [CR] else [])"
| "transformEOL carryOverCR (chunk # rest) =
     (case canonicalizeChunk carryOverCR chunk of
        Inl e \<Rightarrow> Inl e
      | Inr (carry, out) \<Rightarrow>
          (case transformEOL carry rest of
             Inl e \<Rightarrow> Inl e
           | Inr outs \<Rightarrow> Inr (out @ outs)))"

definition canonicalizeEOL :: "uint8array list \<Rightarrow> error + uint8array" where
  "canonicalizeEOL data = transformEOL False data"

text \<open>
  What the claim describes, written on the whole input: a CR is put in front of every LF
  that does not follow a CR, and nothing else changes.  \<open>afterCR\<close> tells whether the
  byte before the list was a CR.
\<close>

fun insertCR :: "bool \<Rightarrow> uint8array \<Rightarrow> uint8array" where
  "insertCR afterCR [] = []"
| "insertCR afterCR (b # bs) =
     (if b = LF \<and> \<not> afterCR then [CR, LF] else [b]) @ insertCR (b = CR) bs"


text \<open>
  Every LF of a byte sequence follows a CR (\<open>afterCR\<close>: the byte before the sequence was
  a CR).
\<close>

fun lfOnlyAfterCR :: "bool \<Rightarrow> uint8array \<Rightarrow> bool" where
  "lfOnlyAfterCR afterCR [] = True"
| "lfOnlyAfterCR afterCR (b # bs) = ((b \<noteq> LF \<or> afterCR) \<and> lfOnlyAfterCR (b = CR) bs)"

text \<open>The bytes that are neither CR nor LF, in order.\<close>

definition nonEOL :: "uint8array \<Rightarrow> uint8array" where
  "nonEOL bytes = filter (\<lambda>b. b \<noteq> CR \<and> b \<noteq> LF) bytes"

text \<open>
  Two functions used to reason about the loops.  \<open>bareLF pos afterCR bytes\<close> lists, for
  every LF of \<open>bytes\<close> that does not follow a CR, its position plus one, positions counted
  from \<open>pos\<close>.  \<open>fill\<close> is the second loop run over the list of the indices still to be
  handled, with the previous index \<open>prev\<close>.
\<close>

fun bareLF :: "nat \<Rightarrow> bool \<Rightarrow> uint8array \<Rightarrow> nat list" where
  "bareLF pos afterCR [] = []"
| "bareLF pos afterCR (b # bs) =
     (if b = LF \<and> \<not> afterCR then [Suc pos] else []) @ bareLF (Suc pos) (b = CR) bs"

fun fill :: "uint8array \<Rightarrow> nat \<Rightarrow> nat list \<Rightarrow> uint8array \<Rightarrow> nat \<Rightarrow> error + uint8array \<times> nat" where
  "fill bytes prev [] normalized j = Inr (normalized, j)"
| "fill bytes prev (idx # rest) normalized j =
     (let sub = subarray bytes (int prev) (int idx)
      in case typedSet normalized sub j of
           Inl e \<Rightarrow> Inl e
         | Inr n1 \<Rightarrow>
             (let j1 = j + length sub;
                  n2 = storeAt n1 (int j1 - 1) CR;
                  n3 = storeAt n2 (int j1) LF
              in fill bytes idx rest n3 (j1 + 1)))"

section \<open>Constant-time selection (util.selectUint8Array)\<close>

text \<open>
  \<open>cond\<close> is a boolean used as a number: \<open>256 - cond\<close> is 255 or 256, \<open>255 + cond\<close> is
  256 or 255.  An element outside its array reads as \<open>undefined\<close> and counts as 0 under
  \<open>&\<close>; a comparison used under \<open>&\<close> counts as 0 or 1.
\<close>

definition b2n :: "bool \<Rightarrow> int" where
  "b2n c = (if c then 1 else 0)"

text \<open>The \<open>for\<close> loop of \<open>util.selectUint8Array\<close>, from \<open>i\<close> on, with \<open>result\<close> and \<open>end\<close>.\<close>

function selectUint8Array_loop ::
  "bool \<Rightarrow> uint8array \<Rightarrow> uint8array \<Rightarrow> nat \<Rightarrow> uint8array \<Rightarrow> int \<Rightarrow> uint8array \<times> int" where
  "selectUint8Array_loop cond a b i result end =
     (if i < length result
      then selectUint8Array_loop cond a b (i + 1)
             (result[i := of_int ((int (toInt32 (at a (int i))) AND (256 - b2n cond))
                                  OR (int (toInt32 (at b (int i))) AND (255 + b2n cond)))])
             (end + ((b2n cond AND b2n (i < length a))
                     OR ((1 - b2n cond) AND b2n (i < length b))))
      else (result, end))"
  by pat_completeness auto
termination
  by (relation "measure (\<lambda>(cond, a, b, i, result, end). length result - i)") auto

declare selectUint8Array_loop.simps [simp del]

definition selectUint8Array :: "bool \<Rightarrow> uint8array \<Rightarrow> uint8array \<Rightarrow> uint8array" where
  "selectUint8Array cond a b =
     (let length = max (length a) (length b);
          result = replicate length 0
      in case selectUint8Array_loop cond a b 0 result 0 of
           (result, end) \<Rightarrow> subarray result 0 end)"



section \<open>Big integers\<close>

text \<open>
  Modelled from the spec: the class \<open>BigInteger\<close> (module biginteger, returned by
  \<open>util.getBigInteger\<close>) is not among the sources.  The specification prescribes no
  big-integer library; the comment of \<open>util.getBigInteger\<close> says the class wraps the
  native BigInt type or bn.js.  A big integer is an \<open>int\<close>; \<open>mul\<close>, \<open>add\<close>, \<open>sub\<close>,
  \<open>dec\<close>, \<open>equal\<close>, \<open>gte\<close> and \<open>isOne\<close> are the operations of \<open>int\<close>.
  \<^item> \<open>new BigInteger(bytes)\<close> reads the bytes big-endian (\<open>bnFromBytes\<close>);
  \<^item> \<open>toUint8Array('be', len)\<close> gives the \<open>len\<close> low bytes big-endian, zero-padded on
    the left;
  \<^item> \<open>byteLength()\<close> is the number of bytes of a non-negative value, 1 for zero;
  \<^item> \<open>mod(m)\<close> is the least non-negative residue for a positive modulus and, like
    BigInt's \<open>%\<close> and bn.js, raises on a zero modulus (a negative modulus does not occur
    under the hypotheses of the theorems below);
  \<^item> \<open>modExp(e, n)\<close> is the power reduced modulo \<open>n\<close>;
  \<^item> \<open>modInv(n)\<close> is the inverse in \<open>0..n-1\<close> and raises when there is none.
\<close>

definition bnFromBytes :: "uint8array \<Rightarrow> int" where
  "bnFromBytes bytes = foldl (\<lambda>acc b. acc * 256 + uint b) 0 bytes"

fun toUint8Array :: "int \<Rightarrow> nat \<Rightarrow> uint8array" where
  "toUint8Array v 0 = []"
| "toUint8Array v (Suc len) = toUint8Array (v div 256) len @ [of_int v]"

function byteLength :: "int \<Rightarrow> nat" where
  "byteLength v = (if v < 256 then 1 else 1 + byteLength (v div 256))"
  by pat_completeness auto
termination
  by (relation "measure nat") auto

declare byteLength.simps [simp del]

definition bn_mod :: "int \<Rightarrow> int \<Rightarrow> error + int" where
  "bn_mod x m = (if m = 0 then Inl (RangeError ''Division by zero'') else Inr (x mod m))"

definition bn_modExp :: "int \<Rightarrow> int \<Rightarrow> int \<Rightarrow> error + int" where
  "bn_modExp x e n =
     (if n = 0 then Inl (Error ''Modulo cannot be zero'')
      else if e < 0 then Inl (Error ''Unsupported negative exponent'')
      else Inr (x ^ nat e mod n))"

definition bn_modInv :: "int \<Rightarrow> int \<Rightarrow> error + int" where
  "bn_modInv x n =
     (case find (\<lambda>y. (x * y) mod n = 1) (map int [0..<nat n]) of
        None \<Rightarrow> Inl (Error ''Inverse does not exist'')
      | Some y \<Rightarrow> Inr y)"


section \<open>PKCS#1 v1.5 encodings\<close>

text \<open>
  Modelled from the spec: \<open>emsaEncode\<close> and \<open>emeDecode\<close> (module crypto/pkcs1) are not
  among the sources.  The specification names the EMSA-PKCS1-v1.5 encoding with the
  algorithm-appropriate DigestInfo prefix: the encoded message is
  \<open>00 01 FF..FF 00 prefix hashed\<close> with at least 8 bytes \<open>FF\<close>, of the length asked for.
  The table of DigestInfo prefixes is the parameter \<open>hash_headers\<close>.
\<close>

definition emsaEncode ::
  "(nat \<Rightarrow> uint8array) \<Rightarrow> nat \<Rightarrow> uint8array \<Rightarrow> nat \<Rightarrow> error + uint8array" where
  "emsaEncode hash_headers algo hashed emLen =
     (let tLen = length (hash_headers algo) + length hashed in
      if emLen < tLen + 11 then Inl (Error ''Intended encoded message length too short'')
      else Inr ([0, 1] @ replicate (emLen - tLen - 3) 0xFF @ [0] @ hash_headers algo @ hashed))"

text \<open>
  Modelled from the spec: an EME-PKCS1-v1.5 block is \<open>00 02 PS 00 payload\<close> with at least 8
  non-zero bytes \<open>PS\<close>.  On a block of another shape \<open>emeDecode\<close> raises a decryption
  error, unless the caller supplied a random payload: then the result is selected
  between the payload and the random payload with \<open>util.selectUint8Array\<close>, so that no
  error is raised.
\<close>

definition isValidPadding :: "uint8array \<Rightarrow> bool" where
  "isValidPadding encoded =
     (at encoded 0 = Some 0 \<and> at encoded 1 = Some 2
      \<and> 8 \<le> length (takeWhile (\<lambda>b. b \<noteq> 0) (drop 2 encoded))
      \<and> dropWhile (\<lambda>b. b \<noteq> 0) (drop 2 encoded) \<noteq> [])"

definition emeDecode :: "uint8array \<Rightarrow> uint8array option \<Rightarrow> error + uint8array" where
  "emeDecode encoded randomPayload =
     (let payload = drop 1 (dropWhile (\<lambda>b. b \<noteq> 0) (drop 2 encoded))
      in case randomPayload of
           Some random \<Rightarrow> Inr (selectUint8Array (isValidPadding encoded) payload random)
         | None \<Rightarrow>
             if isValidPadding encoded then Inr payload else Inl (Error ''Decryption error''))"

section \<open>RSA (module crypto/public_key/rsa)\<close>

text \<open>
  \<open>util.equalsUint8Array\<close>; its arguments are arrays, so the type test of the source
  always passes.  \<open>equals_loop\<close> is the \<open>for\<close> loop from \<open>i\<close> on.
\<close>

function equals_loop :: "uint8array \<Rightarrow> uint8array \<Rightarrow> nat \<Rightarrow> bool" where
  "equals_loop array1 array2 i =
     (if i < length array1
      then (if array1 ! i \<noteq> array2 ! i then False else equals_loop array1 array2 (i + 1))
      else True)"
  by pat_completeness auto
termination
  by (relation "measure (\<lambda>(array1, array2, i). length array1 - i)") auto

declare equals_loop.simps [simp del]

definition equalsUint8Array :: "uint8array \<Rightarrow> uint8array \<Rightarrow> bool" where
  "equalsUint8Array array1 array2 =
     (if length array1 \<noteq> length array2 then False else equals_loop array1 array2 0)"

text \<open>\<open>bnSign(hashAlgo, n, d, hashed)\<close>.\<close>

definition bnSign ::
  "(nat \<Rightarrow> uint8array) \<Rightarrow> nat \<Rightarrow> uint8array \<Rightarrow> uint8array \<Rightarrow> uint8array \<Rightarrow> error + uint8array"
  where
  "bnSign hash_headers hashAlgo n0 d0 hashed =
     (let n = bnFromBytes n0 in
      case emsaEncode hash_headers hashAlgo hashed (byteLength n) of
        Inl err \<Rightarrow> Inl err
      | Inr em \<Rightarrow>
          (let m = bnFromBytes em; d = bnFromBytes d0 in
           if n \<le> m then Inl (Error ''Message size cannot exceed modulus size'')
           else (case bn_modExp m d n of
                   Inl err \<Rightarrow> Inl err
                 | Inr s \<Rightarrow> Inr (toUint8Array s (byteLength n)))))"

text \<open>\<open>bnVerify(hashAlgo, s, n, e, hashed)\<close>.\<close>

definition bnVerify ::
  "(nat \<Rightarrow> uint8array) \<Rightarrow> nat \<Rightarrow> uint8array \<Rightarrow> uint8array \<Rightarrow> uint8array \<Rightarrow> uint8array
     \<Rightarrow> error + bool" where
  "bnVerify hash_headers hashAlgo s0 n0 e0 hashed =
     (let n = bnFromBytes n0; s = bnFromBytes s0; e = bnFromBytes e0 in
      if n \<le> s then Inl (Error ''Signature size cannot exceed modulus size'')
      else (case bn_modExp s e n of
              Inl err \<Rightarrow> Inl err
            | Inr em1 \<Rightarrow>
                (let EM1 = toUint8Array em1 (byteLength n) in
                 case emsaEncode hash_headers hashAlgo hashed (byteLength n) of
                   Inl err \<Rightarrow> Inl err
                 | Inr EM2 \<Rightarrow> Inr (equalsUint8Array EM1 EM2))))"

text \<open>
  \<open>validateParams(n, e, d, p, q, u)\<close>.  Modelled from the spec:
  \<open>getRandomBigInteger(min, max)\<close> (module crypto/random) is not among the sources; it
  returns a random integer from \<open>min\<close> up to, not including, \<open>max\<close>.  The value drawn is
  the parameter \<open>r\<close>; the source asks for the range from 2 to \<open>rMax n\<close>.  The operator
  \<open>&&\<close> evaluates its second operand only when the first is true.
\<close>

function bitLength :: "int \<Rightarrow> nat" where
  "bitLength v = (if v < 2 then 1 else 1 + bitLength (v div 2))"
  by pat_completeness auto
termination
  by (relation "measure nat") auto

declare bitLength.simps [simp del]

definition rMax :: "int \<Rightarrow> int" where
  "rMax n = push_bit (bitLength n div 3) 2"

definition validateParams ::
  "uint8array \<Rightarrow> uint8array \<Rightarrow> uint8array \<Rightarrow> uint8array \<Rightarrow> uint8array \<Rightarrow> uint8array
     \<Rightarrow> int \<Rightarrow> error + bool" where
  "validateParams n0 e0 d0 p0 q0 u0 r =
     (let n = bnFromBytes n0; p = bnFromBytes p0; q = bnFromBytes q0 in
      if p * q \<noteq> n then Inr False
      else (let u = bnFromBytes u0 in
            case bn_mod (p * u) q of
              Inl err \<Rightarrow> Inl err
            | Inr pu \<Rightarrow>
                if pu \<noteq> 1 then Inr False
                else (let e = bnFromBytes e0; d = bnFromBytes d0; rde = r * d * e in
                      case bn_mod rde (p - 1) of
                        Inl err \<Rightarrow> Inl err
                      | Inr a \<Rightarrow>
                          if a \<noteq> r then Inr False
                          else (case bn_mod rde (q - 1) of
                                  Inl err \<Rightarrow> Inl err
                                | Inr b \<Rightarrow> if b \<noteq> r then Inr False else Inr True))))"

text \<open>
  Running a step that may throw and, when it returned, the steps after it.
\<close>

definition andThen :: "error + 'a \<Rightarrow> ('a \<Rightarrow> error + 'b) \<Rightarrow> error + 'b" where
  "andThen m f = (case m of Inl err \<Rightarrow> Inl err | Inr v \<Rightarrow> f v)"

text \<open>
  \<open>bnDecrypt(data, n, e, d, p, q, u, randomPayload)\<close>, which is all that \<open>decrypt\<close> calls.
  \<open>rnd\<close> is the value drawn by \<open>getRandomBigInteger(2, n)\<close>.  \<open>bnDecrypt_block\<close> is the
  function up to the block handed to \<open>emeDecode\<close>.
\<close>

definition bnDecrypt_block ::
  "uint8array \<Rightarrow> uint8array \<Rightarrow> uint8array \<Rightarrow> uint8array \<Rightarrow> uint8array \<Rightarrow> uint8array
     \<Rightarrow> uint8array \<Rightarrow> int \<Rightarrow> error + uint8array" where
  "bnDecrypt_block data0 n0 e0 d0 p0 q0 u0 rnd =
     (let data = bnFromBytes data0; n = bnFromBytes n0; e = bnFromBytes e0;
          d = bnFromBytes d0; p = bnFromBytes p0; q = bnFromBytes q0; u = bnFromBytes u0 in
      if n \<le> data then Inl (Error ''Data too large.'')
      else
        andThen (bn_mod d (q - 1)) (\<lambda>dq.
        andThen (bn_mod d (p - 1)) (\<lambda>dp.
        andThen (bn_mod rnd n) (\<lambda>unblinder.
        andThen (bn_modInv unblinder n) (\<lambda>unblinderInverse.
        andThen (bn_modExp unblinderInverse e n) (\<lambda>blinder.
        andThen (bn_mod (data * blinder) n) (\<lambda>blinded.
        andThen (bn_modExp blinded dp p) (\<lambda>mp.
        andThen (bn_modExp blinded dq q) (\<lambda>mq.
        andThen (bn_mod (u * (mq - mp)) q) (\<lambda>h.
        andThen (bn_mod ((h * p + mp) * unblinder) n) (\<lambda>result.
          Inr (toUint8Array result (byteLength n)))))))))))))"

definition bnDecrypt ::
  "uint8array \<Rightarrow> uint8array \<Rightarrow> uint8array \<Rightarrow> uint8array \<Rightarrow> uint8array \<Rightarrow> uint8array
     \<Rightarrow> uint8array \<Rightarrow> uint8array option \<Rightarrow> int \<Rightarrow> error + uint8array" where
  "bnDecrypt data n e d p q u randomPayload rnd =
     (case bnDecrypt_block data n e d p q u rnd of
        Inl err \<Rightarrow> Inl err
      | Inr block \<Rightarrow> emeDecode block randomPayload)"

definition decrypt ::
  "uint8array \<Rightarrow> uint8array \<Rightarrow> uint8array \<Rightarrow> uint8array \<Rightarrow> uint8array \<Rightarrow> uint8array
     \<Rightarrow> uint8array \<Rightarrow> uint8array option \<Rightarrow> int \<Rightarrow> error + uint8array" where
  "decrypt data n e d p q u randomPayload rnd = bnDecrypt data n e d p q u randomPayload rnd"

text \<open>
  An RSA key pair, by what it has to do: the exponents are not negative and raising to
  the power \<open>e * d\<close> gives back every residue modulo \<open>n\<close>.  The lemmas
  \<open>rsaKeyPair_two_primes\<close> and \<open>rsaKeyPair_prime_list\<close> below show that a modulus that is
  a product of distinct primes with \<open>d\<close> the inverse of \<open>e\<close> modulo \<open>(p - 1) * (q - 1)\<close>
  is such a pair.
\<close>

definition rsaKeyPair :: "int \<Rightarrow> int \<Rightarrow> int \<Rightarrow> bool" where
  "rsaKeyPair n e d = (0 \<le> e \<and> 0 \<le> d \<and> (\<forall>m. 0 \<le> m \<and> m < n \<longrightarrow> m ^ nat (e * d) mod n = m))"

text \<open>Prime numbers, for these two lemmas.\<close>

definition isPrime :: "nat \<Rightarrow> bool" where
  "isPrime p = (1 < p \<and> (\<forall>m. m dvd p \<longrightarrow> m = 1 \<or> m = p))"

section \<open>Facts about the MPI functions\<close>

lemma subarrayFrom_drop: "i \<le> length bytes \<Longrightarrow> subarrayFrom bytes (int i) = drop i bytes"
  by (simp add: subarrayFrom_def subarray_def relIndex_def)

lemma nbits_byte:
  "x < 256 \<Longrightarrow> nbits x =
     (if x < 2 then 1 else if x < 4 then 2 else if x < 8 then 3 else if x < 16 then 4
      else if x < 32 then 5 else if x < 64 then 6 else if x < 128 then 7 else 8)"
  unfolding nbits_def nbits_step_def drop_bit_eq_div Let_def
  by (simp split: prod.splits; arith)

lemma unat_byte_less: "unat (b :: byte) < 256"
  using unsigned_less [of b, where ?'a = nat] by simp

lemma nbits_range: "1 \<le> nbits (unat (b :: byte)) \<and> nbits (unat b) \<le> 8"
  by (simp add: nbits_byte unat_byte_less)

lemma nbits_exact:
  assumes "b \<noteq> (0 :: byte)"
  shows "2 ^ (nbits (unat b) - 1) \<le> unat b \<and> unat b < 2 ^ nbits (unat b)"
proof -
  have "unat b \<noteq> 0" using assms by (simp add: unat_eq_0)
  moreover have "unat b < 256" by (rule unat_byte_less)
  ultimately show ?thesis by (simp add: nbits_byte)
qed

lemma firstNonZero_takeWhile:
  "i \<le> length bin \<Longrightarrow> firstNonZero bin i = i + length (takeWhile (\<lambda>b. b = 0) (drop i bin))"
proof (induction bin i rule: firstNonZero.induct)
  case (1 bin i)
  show ?case
  proof (cases "i < length bin")
    case True
    then have d: "drop i bin = bin ! i # drop (Suc i) bin"
      by (simp add: Cons_nth_drop_Suc)
    show ?thesis
    proof (cases "bin ! i = 0")
      case True
      with \<open>i < length bin\<close> "1.IH" d show ?thesis
        by (subst firstNonZero.simps) simp
    next
      case False
      with \<open>i < length bin\<close> d show ?thesis
        by (subst firstNonZero.simps) simp
    qed
  next
    case False
    with "1.prems" show ?thesis
      by (subst firstNonZero.simps) simp
  qed
qed

lemma firstNonZero_0: "firstNonZero bin 0 = length (takeWhile (\<lambda>b. b = 0) bin)"
  using firstNonZero_takeWhile [of 0 bin] by simp

lemma drop_takeWhile_length: "drop (length (takeWhile P xs)) xs = dropWhile P xs"
  by (induction xs) auto

lemma uint8ArrayBitLength_dropWhile:
  "uint8ArrayBitLength bin =
     (case dropWhile (\<lambda>b. b = 0) bin of [] \<Rightarrow> 0 | b # bs \<Rightarrow> length bs * 8 + nbits (unat b))"
proof (cases "dropWhile (\<lambda>b. b = 0) bin")
  case Nil
  then have "length (takeWhile (\<lambda>b. b = 0) bin) = length bin"
    by (metis append_Nil2 takeWhile_dropWhile_id)
  then show ?thesis
    unfolding Nil by (simp add: uint8ArrayBitLength_def firstNonZero_0)
next
  case (Cons b bs)
  let ?i = "length (takeWhile (\<lambda>b. b = 0) bin)"
  have "length bin = ?i + length (dropWhile (\<lambda>b. b = 0) bin)"
    by (metis length_append takeWhile_dropWhile_id)
  with Cons have neq: "?i \<noteq> length bin" and le: "?i \<le> length bin" by simp_all
  have "subarrayFrom bin (int ?i) = b # bs"
    using le Cons by (simp add: subarrayFrom_drop drop_takeWhile_length)
  with neq Cons show ?thesis
    by (simp add: uint8ArrayBitLength_def firstNonZero_0 at_def toInt32_def)
qed

lemma and_255: "(n :: nat) AND 255 = n mod 256"
  using take_bit_eq_mask [of 8 n] by (simp add: take_bit_eq_mod mask_eq_exp_minus_1)

lemma drop_bit_8_mod: "drop_bit 8 (n :: nat) mod 256 = n div 256 mod 256"
  by (simp add: drop_bit_eq_div)

lemma ceil8: "1 \<le> k \<Longrightarrow> k \<le> 8 \<Longrightarrow> (n * 8 + k + 7) div 8 = Suc n"
  by arith

lemma uint8ArrayToMPI_dropWhile:
  "uint8ArrayToMPI bin =
     (case dropWhile (\<lambda>b. b = 0) bin of
        [] \<Rightarrow> Inl (Error ''Zero MPI'')
      | b # bs \<Rightarrow>
          (let bitSize = length bs * 8 + nbits (unat b)
           in Inr (of_nat ((bitSize div 256) mod 256) # of_nat (bitSize mod 256) # b # bs)))"
proof (cases "dropWhile (\<lambda>b. b = 0) bin")
  case Nil
  have "uint8ArrayBitLength bin = 0"
    unfolding uint8ArrayBitLength_dropWhile Nil by simp
  then show ?thesis
    unfolding Nil by (simp add: uint8ArrayToMPI_def)
next
  case (Cons b bs)
  let ?i = "length (takeWhile (\<lambda>b. b = 0) bin)"
  let ?k = "nbits (unat b)"
  have k: "1 \<le> ?k" "?k \<le> 8" using nbits_range [of b] by simp_all
  have len: "length bin = ?i + Suc (length bs)"
    using Cons by (metis length_Cons length_append takeWhile_dropWhile_id)
  have bs: "uint8ArrayBitLength bin = length bs * 8 + ?k"
    using Cons by (simp add: uint8ArrayBitLength_dropWhile)
  have "int (length bin) - int ((length bs * 8 + ?k + 7) div 8) = int ?i"
    using len k by (simp add: ceil8)
  then have "subarrayFrom bin (int (length bin) - int ((length bs * 8 + ?k + 7) div 8))
      = subarrayFrom bin (int ?i)"
    by (simp only:)
  also have "\<dots> = b # bs"
    using len Cons by (simp add: subarrayFrom_drop drop_takeWhile_length)
  finally have "subarrayFrom bin (int (length bin) - int ((length bs * 8 + ?k + 7) div 8)) = b # bs" .
  moreover have "length bs * 8 + ?k \<noteq> 0" using k by simp
  ultimately show ?thesis
    using Cons bs
    by (simp add: uint8ArrayToMPI_def Let_def concatUint8Array_def and_255 drop_bit_8_mod
             del: of_nat_add of_nat_mult)
qed

lemma readMPI_prefixed:
  "readMPI (p1 # p0 # payload) = take ((256 * unat p1 + unat p0 + 7) div 8) payload"
proof -
  have "push_bit 8 (unat p1) OR unat p0 = 256 * unat p1 + unat p0"
  proof -
    have "push_bit 8 (unat p1) OR unat p0 = push_bit 8 (unat p1) + unat p0"
      by (rule disjunctive_add [symmetric])
         (auto simp: bit_simps dest: bit_imp_le_length)
    then show ?thesis by (simp add: push_bit_eq_mult)
  qed
  moreover have "min (nat (2 + int x)) (Suc (Suc (length payload))) - Suc (Suc 0)
      = min x (length payload)" for x
    by simp
  moreover have "take (min x (length payload)) payload = take x payload" for x
    by (cases "x \<le> length payload") (simp_all add: min_def)
  ultimately show ?thesis
    by (simp add: readMPI_def at_def toInt32_def subarray_def relIndex_def drop_bit_eq_div
             del: of_nat_add)
qed

lemma writeThenReadMPI_canonical:
  assumes "hd m \<noteq> 0" "m \<noteq> []"
  shows "writeThenReadMPI m =
     (let bitSize = (length m - 1) * 8 + nbits (unat (hd m))
      in Inr (take ((256 * ((bitSize div 256) mod 256) + bitSize mod 256 + 7) div 8) m))"
proof -
  obtain b bs where m: "m = b # bs" using assms by (cases m) auto
  with assms have b: "b \<noteq> 0" by simp
  show ?thesis
    using b unfolding m
    by (simp add: writeThenReadMPI_def uint8ArrayToMPI_dropWhile Let_def readMPI_prefixed
        unat_of_nat del: of_nat_add of_nat_mult)
qed

section \<open>Claims about the MPI codec\<close>

text \<open>
  C1 (MPI round trip).  The writer stores the bit length in two bytes, masking it with
  \<open>0xFF00\<close> and \<open>0xFF\<close>, so a bit length of 65536 or more is written modulo 65536 and
  the reader returns fewer bytes than were written: the byte 1 followed by 8192 zero
  bytes has 65537 bits, the prefix written is \<open>00 01\<close>, and reading back gives the single
  byte 1.
\<close>

theorem mpi_roundtrip_counterexample:
  "writeThenReadMPI (1 # replicate 8192 0) = Inr [1]
   \<and> writeThenReadMPI (1 # replicate 8192 0) \<noteq> Inr (1 # replicate 8192 0)"
  by (simp add: writeThenReadMPI_canonical nbits_byte)

text \<open>
  C1, amended: for every non-empty byte array \<open>m\<close> whose first byte is not zero and whose
  bit length is below 65536, writing \<open>m\<close> as an MPI does not throw and reading the written
  bytes back returns \<open>m\<close>.
\<close>

theorem mpi_roundtrip:
  assumes "m \<noteq> []" and "hd m \<noteq> 0" and "uint8ArrayBitLength m < 65536"
  shows "writeThenReadMPI m = Inr m"
proof -
  obtain b bs where m: "m = b # bs" using assms by (cases m) auto
  with assms have b: "b \<noteq> 0" by simp
  let ?k = "nbits (unat b)"
  let ?n = "length bs * 8 + ?k"
  have k: "1 \<le> ?k" "?k \<le> 8" using nbits_range [of b] by simp_all
  have n: "?n < 65536"
    using assms(3) b unfolding m by (simp add: uint8ArrayBitLength_dropWhile)
  then have "256 * ((?n div 256) mod 256) + ?n mod 256 = ?n" by simp
  moreover have "(?n + 7) div 8 = Suc (length bs)" using k by (simp add: ceil8)
  ultimately show ?thesis
    using writeThenReadMPI_canonical [OF assms(2,1)] unfolding m
    by (simp add: Let_def del: of_nat_add of_nat_mult)
qed

theorem mpi_roundtrip_witness:
  "writeThenReadMPI [0x01, 0x00, 0x01] = Inr [0x01, 0x00, 0x01]"
proof -
  have "uint8ArrayBitLength [0x01, 0x00, 0x01 :: byte] < 65536"
    by (simp add: uint8ArrayBitLength_dropWhile nbits_byte)
  then show ?thesis
    using mpi_roundtrip [of "[0x01, 0x00, 0x01]"] by simp
qed

text \<open>
  C5 (zero MPI rejected on read).  \<open>util.readMPI\<close> has no check and no \<open>throw\<close>: for the
  input \<open>00 00\<close> (declared bit length zero) it returns the empty array, and for
  \<open>00 08 00\<close> (one payload byte, zero) it returns that zero byte.
\<close>

theorem readMPI_zero_counterexample: "readMPI [0, 0] = [] \<and> readMPI [0, 8, 0] = [0]"
  by (simp add: readMPI_prefixed)

text \<open>
  C5, amended: the zero value is rejected by the writer, not by the reader.  For every
  byte array whose bytes are all zero (the empty array included), \<open>util.uint8ArrayToMPI\<close>
  throws \<open>Zero MPI\<close>; \<open>util.readMPI\<close> returns the declared number of payload bytes
  whatever their value.
\<close>

theorem zero_mpi_rejected_on_write:
  "((\<forall>b\<in>set bin. b = 0) \<longrightarrow> uint8ArrayToMPI bin = Inl (Error ''Zero MPI''))
   \<and> readMPI (p1 # p0 # payload) = take ((256 * unat p1 + unat p0 + 7) div 8) payload"
  by (simp add: uint8ArrayToMPI_dropWhile dropWhile_eq_Nil_conv [THEN iffD2] readMPI_prefixed)

theorem zero_mpi_rejected_on_write_witness:
  "uint8ArrayToMPI [0, 0, 0] = Inl (Error ''Zero MPI'') \<and> readMPI [0, 9, 0, 0, 7] = [0, 0]"
  using zero_mpi_rejected_on_write [of "[0, 0, 0]" 0 9 "[0, 0, 7]"] by simp

text \<open>
  C6 (canonical form of the written MPI).  The two prefix bytes hold the bit length modulo
  65536: the byte \<open>0x80\<close> followed by 8191 zero bytes has 65536 bits and is written with
  the prefix \<open>00 00\<close>.
\<close>

theorem mpi_write_canonical_counterexample:
  "uint8ArrayToMPI (0x80 # replicate 8191 0) = Inr (0 # 0 # 0x80 # replicate 8191 0)"
  by (simp add: uint8ArrayToMPI_dropWhile nbits_byte)

text \<open>
  C6, amended: for every byte array with a non-zero byte and a bit length below 65536,
  \<open>util.uint8ArrayToMPI\<close> returns two prefix bytes followed by the input without its
  leading zero bytes; the payload starts with a non-zero byte, and the prefix, read
  big-endian, is the bit length \<open>k\<close> of that byte (\<open>2 ^ (k - 1) \<le> byte < 2 ^ k\<close>) plus
  8 times the number of bytes after it.
\<close>

theorem mpi_write_canonical:
  assumes "\<exists>b\<in>set bin. b \<noteq> 0" and "uint8ArrayBitLength bin < 65536"
  shows "\<exists>p1 p0 payload z.
           uint8ArrayToMPI bin = Inr (p1 # p0 # payload)
         \<and> bin = replicate z 0 @ payload
         \<and> payload \<noteq> [] \<and> hd payload \<noteq> 0
         \<and> 256 * unat p1 + unat p0 = nbits (unat (hd payload)) + 8 * (length payload - 1)
         \<and> 2 ^ (nbits (unat (hd payload)) - 1) \<le> unat (hd payload)
         \<and> unat (hd payload) < 2 ^ nbits (unat (hd payload))"
proof -
  let ?P = "\<lambda>b :: byte. b = 0"
  from assms(1) have "dropWhile ?P bin \<noteq> []" by (simp add: dropWhile_eq_Nil_conv)
  then obtain b bs where d: "dropWhile ?P bin = b # bs" by (cases "dropWhile ?P bin") auto
  then have b: "b \<noteq> 0" using hd_dropWhile [of ?P bin] by auto
  let ?n = "length bs * 8 + nbits (unat b)"
  have n: "?n < 65536" using assms(2) d by (simp add: uint8ArrayBitLength_dropWhile)
  have w: "uint8ArrayToMPI bin = Inr (of_nat ((?n div 256) mod 256) # of_nat (?n mod 256) # b # bs)"
    using d by (simp add: uint8ArrayToMPI_dropWhile Let_def)
  have z: "takeWhile ?P bin = replicate (length (takeWhile ?P bin)) 0"
    by (rule replicate_length_same [symmetric]) (auto dest: set_takeWhileD)
  have "bin = takeWhile ?P bin @ dropWhile ?P bin" by simp
  with z d have split: "bin = replicate (length (takeWhile ?P bin)) 0 @ b # bs" by metis
  have "256 * unat (of_nat ((?n div 256) mod 256) :: byte) + unat (of_nat (?n mod 256) :: byte) = ?n"
    using n by (simp add: unat_of_nat)
  with w split b nbits_exact [OF b] show ?thesis
    by (intro exI [of _ "of_nat ((?n div 256) mod 256)"] exI [of _ "of_nat (?n mod 256)"]
              exI [of _ "b # bs"] exI [of _ "length (takeWhile ?P bin)"]) simp
qed

theorem mpi_write_canonical_witness:
  "\<exists>p1 p0 payload z.
           uint8ArrayToMPI [0, 0, 5, 0] = Inr (p1 # p0 # payload)
         \<and> [0, 0, 5, 0] = replicate z 0 @ payload
         \<and> payload \<noteq> [] \<and> hd payload \<noteq> 0
         \<and> 256 * unat p1 + unat p0 = nbits (unat (hd payload)) + 8 * (length payload - 1)
         \<and> 2 ^ (nbits (unat (hd payload)) - 1) \<le> unat (hd payload)
         \<and> unat (hd payload) < 2 ^ nbits (unat (hd payload))"
proof -
  have "uint8ArrayBitLength [0, 0, 5, 0 :: byte] < 65536"
    by (simp add: uint8ArrayBitLength_dropWhile nbits_byte)
  moreover have "\<exists>b\<in>set [0, 0, 5, 0 :: byte]. b \<noteq> 0" by simp
  ultimately show ?thesis by (rule mpi_write_canonical [rotated])
qed

section \<open>Facts about the enumerations\<close>

lemma of_char_digitChar: "d < 10 \<Longrightarrow> (of_char (digitChar d) :: nat) = 48 + d"
  by (simp add: digitChar_def)

lemma digitChar_inj:
  assumes "a < 10" and "b < 10" and "digitChar a = digitChar b"
  shows "a = b"
proof -
  have "(of_char (digitChar a) :: nat) = of_char (digitChar b)"
    by (simp only: assms(3))
  then have "48 + a = 48 + b"
    by (simp only: of_char_digitChar [OF assms(1)] of_char_digitChar [OF assms(2)])
  then show ?thesis by simp
qed

lemma digits_nonempty: "digits n \<noteq> []"
  by (subst digits.simps) simp

lemma digits_isDigit: "c \<in> set (digits n) \<Longrightarrow> isDigit c"
proof (induction n rule: digits.induct)
  case (1 n)
  show ?case
  proof (cases "n < 10")
    case True
    with "1.prems" show ?thesis
      by (subst (asm) digits.simps) (simp add: isDigit_def of_char_digitChar)
  next
    case False
    have "n mod 10 < 10" by simp
    with False "1.prems" "1.IH" show ?thesis
      by (subst (asm) digits.simps) (auto simp: isDigit_def of_char_digitChar)
  qed
qed

lemma digits_inj: "digits n = digits m \<Longrightarrow> n = m"
proof (induction n arbitrary: m rule: digits.induct)
  case (1 n)
  show ?case
  proof (cases "n < 10")
    case n: True
    show ?thesis
    proof (cases "m < 10")
      case True
      with n "1.prems" show ?thesis
        by (subst (asm) digits.simps, subst (asm) (2) digits.simps) (simp add: digitChar_inj)
    next
      case False
      with n "1.prems" digits_nonempty [of "m div 10"] show ?thesis
        by (subst (asm) digits.simps, subst (asm) (2) digits.simps) simp
    qed
  next
    case n: False
    show ?thesis
    proof (cases "m < 10")
      case True
      with n "1.prems" digits_nonempty [of "n div 10"] show ?thesis
        by (subst (asm) digits.simps, subst (asm) (2) digits.simps) simp
    next
      case False
      have "digits n = digits (n div 10) @ [digitChar (n mod 10)]"
        using n by (subst digits.simps) simp
      moreover have "digits m = digits (m div 10) @ [digitChar (m mod 10)]"
        using False by (subst digits.simps) simp
      ultimately have a: "digits (n div 10) = digits (m div 10)"
        and b: "digitChar (n mod 10) = digitChar (m mod 10)"
        using "1.prems" by simp_all
      from a n "1.IH" have "n div 10 = m div 10" by simp
      moreover from b have "n mod 10 = m mod 10" by (intro digitChar_inj) simp_all
      ultimately show ?thesis by (metis div_mult_mod_eq)
    qed
  qed
qed

lemma numberToString_inj: "numberToString i = numberToString j \<Longrightarrow> i = j"
proof -
  have minus: "CHR ''-'' # digits a \<noteq> digits b" for a b
  proof
    assume "CHR ''-'' # digits a = digits b"
    then have "CHR ''-'' \<in> set (digits b)" by (metis list.set_intros(1))
    then have "isDigit CHR ''-''" by (rule digits_isDigit)
    then show False by (simp add: isDigit_def)
  qed
  assume eq: "numberToString i = numberToString j"
  show ?thesis
  proof (cases "i < 0")
    case i: True
    show ?thesis
    proof (cases "j < 0")
      case True
      with i eq have "nat (- i) = nat (- j)" by (simp add: numberToString_def digits_inj)
      with i True show ?thesis by simp
    next
      case False
      with i eq minus show ?thesis by (simp add: numberToString_def)
    qed
  next
    case i: False
    show ?thesis
    proof (cases "j < 0")
      case True
      with i eq minus [of "nat (- j)" "nat i"] show ?thesis by (simp add: numberToString_def)
    next
      case False
      with i eq have "nat i = nat j" by (simp add: numberToString_def digits_inj)
      with i False show ?thesis by simp
    qed
  qed
qed

lemma numberToString_hd:
  "numberToString i \<noteq> [] \<and> (hd (numberToString i) = CHR ''-'' \<or> isDigit (hd (numberToString i)))"
proof -
  have "isDigit (hd (digits n))" for n
    using digits_nonempty [of n] digits_isDigit [of "hd (digits n)" n] by simp
  then show ?thesis
    by (simp add: numberToString_def digits_nonempty)
qed

lemma propertyKey_Num:
  "wordLike v \<Longrightarrow> propertyKey v = numberToString i \<Longrightarrow> v = Num i"
  using numberToString_hd [of i]
  by (cases v) (auto simp: propertyKey_def wordLike_def dest: numberToString_inj)

lemma fold_byValue:
  "fold (\<lambda>(key, value) arr. arr(f value \<mapsto> key)) type m
     = m ++ map_of (rev (map (\<lambda>(key, value). (f value, key)) type))"
proof (induction type arbitrary: m)
  case Nil
  show ?case by simp
next
  case (Cons kv type)
  obtain k v where kv: "kv = (k, v)" by (cases kv)
  have "fold (\<lambda>(key, value) arr. arr(f value \<mapsto> key)) (kv # type) m
      = m(f v \<mapsto> k) ++ map_of (rev (map (\<lambda>(key, value). (f value, key)) type))"
    unfolding kv by (simp only: fold_simps Cons.IH case_prod_conv)
  also have "m(f v \<mapsto> k) = m ++ [f v \<mapsto> k]" by simp
  also have "(m ++ [f v \<mapsto> k]) ++ map_of (rev (map (\<lambda>(key, value). (f value, key)) type))
      = m ++ map_of (rev (map (\<lambda>(key, value). (f value, key)) (kv # type)))"
    unfolding kv by (simp only: map_add_assoc list.map rev.simps map_of_append case_prod_conv map_of.simps fst_conv snd_conv map_add_empty)
  finally show ?case .
qed

lemma byValue_map_of:
  "byValue type = map_of (rev (map (\<lambda>(key, value). (propertyKey value, key)) type))"
  by (simp add: byValue_def fold_byValue)

lemma byValue_Some:
  assumes "byValue type pk = Some name"
  shows "\<exists>v. (name, v) \<in> set type \<and> propertyKey v = pk"
proof -
  from assms have "(pk, name) \<in> set (rev (map (\<lambda>(key, value). (propertyKey value, key)) type))"
    unfolding byValue_map_of by (rule map_of_SomeD)
  then show ?thesis by auto
qed

lemma byValue_None:
  assumes "byValue type pk = None" and "(name, v) \<in> set type"
  shows "propertyKey v \<noteq> pk"
proof
  assume "propertyKey v = pk"
  with assms(2) have "pk \<in> fst ` set (rev (map (\<lambda>(key, value). (propertyKey value, key)) type))"
    by force
  with assms(1) show False
    unfolding byValue_map_of by (simp add: map_of_eq_None_iff)
qed

lemma enums_assigned:
  assumes "distinct (map fst type)" and "\<forall>v\<in>snd ` set type. wordLike v"
    and "Num i \<in> snd ` set type"
  shows "\<exists>name. enums_read type i = Inr name \<and> map_of type name = Some (Num i)
           \<and> enums_write type (Num i) = Inr (Num i)"
proof -
  from assms(3) obtain k where k: "(k, Num i) \<in> set type" by auto
  have "byValue type (numberToString i) \<noteq> None"
    using byValue_None [OF _ k] by (auto simp: propertyKey_def)
  then obtain name where n: "byValue type (numberToString i) = Some name" by auto
  from byValue_Some [OF n] obtain v where v: "(name, v) \<in> set type"
    and pk: "propertyKey v = numberToString i" by auto
  from v assms(2) have "wordLike v" by force
  then have "v = Num i" using pk by (rule propertyKey_Num)
  with v assms(1) have "map_of type name = Some (Num i)" by simp
  with n show ?thesis by (simp add: enums_read_def enums_write_def)
qed

lemma enums_unassigned:
  assumes "\<forall>v\<in>snd ` set type. wordLike v" and "Num i \<notin> snd ` set type"
  shows "enums_read type i = Inl (Error ''Invalid enum value.'')
       \<and> enums_write type (Num i) = Inl (Error ''Invalid enum value.'')"
proof -
  have "byValue type (numberToString i) = None"
  proof (rule ccontr)
    assume "byValue type (numberToString i) \<noteq> None"
    then obtain name where "byValue type (numberToString i) = Some name" by auto
    from byValue_Some [OF this] obtain v where v: "(name, v) \<in> set type"
      and pk: "propertyKey v = numberToString i" by auto
    from v assms(1) have "wordLike v" by force
    then have "v = Num i" using pk by (rule propertyKey_Num)
    with v assms(2) show False by force
  qed
  then show ?thesis by (simp add: enums_read_def enums_write_def)
qed

lemma curve_distinct: "distinct (map fst enums_curve)"
  by (simp add: enums_curve_def)

lemma curve_wordLike: "\<forall>v\<in>snd ` set enums_curve. wordLike v"
  by (simp add: enums_curve_def wordLike_def isDigit_def)

lemma tables_distinct: "type \<in> set enums_tables \<Longrightarrow> distinct (map fst type)"
  unfolding enums_tables_def using curve_distinct
  by (auto simp: enums_s2k_def enums_publicKey_def enums_symmetric_def enums_compression_def
  enums_hash_def enums_webHash_def enums_aead_def enums_packet_def enums_literal_def
  enums_signature_def enums_signatureSubpacket_def enums_keyFlags_def enums_armor_def
  enums_reasonForRevocation_def enums_features_def)

lemma tables_wordLike: "type \<in> set enums_tables \<Longrightarrow> \<forall>v\<in>snd ` set type. wordLike v"
  unfolding enums_tables_def using curve_wordLike
  by (auto simp: wordLike_def enums_s2k_def enums_publicKey_def enums_symmetric_def enums_compression_def
  enums_hash_def enums_webHash_def enums_aead_def enums_packet_def enums_literal_def
  enums_signature_def enums_signatureSubpacket_def enums_keyFlags_def enums_armor_def
  enums_reasonForRevocation_def enums_features_def)

section \<open>Claims about the enumerations\<close>

text \<open>
  C10 (enum value round trip and rejection).  For every enumeration of the module and
  every integer \<open>v\<close>: when some name of the table has the value \<open>v\<close>,
  \<open>enums.write(table, v)\<close> returns \<open>v\<close> and \<open>enums.read(table, v)\<close> returns a name whose
  value in the table is \<open>v\<close>; when no name has the value \<open>v\<close>, both throw
  \<open>Invalid enum value.\<close>
\<close>

theorem enums_roundtrip:
  assumes "type \<in> set enums_tables"
  shows "(Num v \<in> snd ` set type \<longrightarrow>
            enums_write type (Num v) = Inr (Num v)
          \<and> (\<exists>name. enums_read type v = Inr name \<and> map_of type name = Some (Num v)))
       \<and> (Num v \<notin> snd ` set type \<longrightarrow>
            enums_read type v = Inl (Error ''Invalid enum value.'')
          \<and> enums_write type (Num v) = Inl (Error ''Invalid enum value.''))"
  using enums_assigned [OF tables_distinct [OF assms] tables_wordLike [OF assms], of v]
        enums_unassigned [OF tables_wordLike [OF assms], of v]
  by blast

theorem enums_roundtrip_witness:
  "enums_write enums_publicKey (Num 22) = Inr (Num 22)
   \<and> (\<exists>name. enums_read enums_publicKey 22 = Inr name
         \<and> map_of enums_publicKey name = Some (Num 22))
   \<and> enums_read enums_publicKey 4 = Inl (Error ''Invalid enum value.'')
   \<and> enums_write enums_publicKey (Num 4) = Inl (Error ''Invalid enum value.'')"
proof -
  have t: "enums_publicKey \<in> set enums_tables" by (simp add: enums_tables_def)
  have a: "Num 22 \<in> snd ` set enums_publicKey" by (simp add: enums_publicKey_def)
  have b: "Num 4 \<notin> snd ` set enums_publicKey" by (simp add: enums_publicKey_def)
  show ?thesis
    using enums_roundtrip [OF t, of 22] enums_roundtrip [OF t, of 4] a b by blast
qed

text \<open>
  Of the three names with the value 22 in \<open>enums.publicKey\<close>, \<open>read\<close> returns the one
  declared last, as the comment in the source says.
\<close>

lemma read_eddsa: "enums_read enums_publicKey 22 = Inr ''eddsa''"
  by (simp add: enums_read_def byValue_def enums_publicKey_def propertyKey_def numberToString_def
      digits.simps digitChar_def)

text \<open>
  C7 (algorithm identifiers).  The values of the names the specification lists, read from
  the tables of the module: public-key and symmetric algorithms, and also hash,
  compression, AEAD and S2K identifiers.
\<close>

theorem algorithm_ids:
  "map_of enums_publicKey ''rsaEncryptSign'' = Some (Num 1)
 \<and> map_of enums_publicKey ''rsaEncrypt'' = Some (Num 2)
 \<and> map_of enums_publicKey ''rsaSign'' = Some (Num 3)
 \<and> map_of enums_publicKey ''elgamal'' = Some (Num 16)
 \<and> map_of enums_publicKey ''dsa'' = Some (Num 17)
 \<and> map_of enums_publicKey ''ecdh'' = Some (Num 18)
 \<and> map_of enums_publicKey ''ecdsa'' = Some (Num 19)
 \<and> map_of enums_publicKey ''eddsaLegacy'' = Some (Num 22)
 \<and> map_of enums_publicKey ''x25519'' = Some (Num 25)
 \<and> map_of enums_publicKey ''x448'' = Some (Num 26)
 \<and> map_of enums_publicKey ''ed25519'' = Some (Num 27)
 \<and> map_of enums_publicKey ''ed448'' = Some (Num 28)
 \<and> map_of enums_symmetric ''plaintext'' = Some (Num 0)
 \<and> map_of enums_symmetric ''idea'' = Some (Num 1)
 \<and> map_of enums_symmetric ''tripledes'' = Some (Num 2)
 \<and> map_of enums_symmetric ''cast5'' = Some (Num 3)
 \<and> map_of enums_symmetric ''blowfish'' = Some (Num 4)
 \<and> map_of enums_symmetric ''aes128'' = Some (Num 7)
 \<and> map_of enums_symmetric ''aes192'' = Some (Num 8)
 \<and> map_of enums_symmetric ''aes256'' = Some (Num 9)
 \<and> map_of enums_symmetric ''twofish'' = Some (Num 10)
 \<and> map_of enums_hash ''md5'' = Some (Num 1)
 \<and> map_of enums_hash ''sha1'' = Some (Num 2)
 \<and> map_of enums_hash ''ripemd'' = Some (Num 3)
 \<and> map_of enums_hash ''sha256'' = Some (Num 8)
 \<and> map_of enums_hash ''sha384'' = Some (Num 9)
 \<and> map_of enums_hash ''sha512'' = Some (Num 10)
 \<and> map_of enums_hash ''sha224'' = Some (Num 11)
 \<and> map_of enums_compression ''uncompressed'' = Some (Num 0)
 \<and> map_of enums_compression ''zip'' = Some (Num 1)
 \<and> map_of enums_compression ''zlib'' = Some (Num 2)
 \<and> map_of enums_compression ''bzip2'' = Some (Num 3)
 \<and> map_of enums_aead ''eax'' = Some (Num 1)
 \<and> map_of enums_aead ''ocb'' = Some (Num 2)
 \<and> map_of enums_aead ''experimentalGCM'' = Some (Num 100)
 \<and> map_of enums_s2k ''simple'' = Some (Num 0)
 \<and> map_of enums_s2k ''salted'' = Some (Num 1)
 \<and> map_of enums_s2k ''iterated'' = Some (Num 3)
 \<and> map_of enums_s2k ''gnu'' = Some (Num 101)"
  by (simp add: enums_publicKey_def enums_symmetric_def enums_hash_def enums_compression_def
      enums_aead_def enums_s2k_def)

section \<open>Facts about the GCM nonce\<close>

lemma byte_xor: "(of_nat (unat (a :: byte) XOR unat (b :: byte)) :: byte) = a XOR b"
  by (simp flip: unsigned_xor_eq)

lemma xorAssign_other: "c \<noteq> a \<Longrightarrow> xorAssign h a i v ! c = h ! c"
  by (simp add: xorAssign_def)

lemma xorAssign_same:
  "a < length h \<Longrightarrow> k < length (h ! a) \<Longrightarrow>
     xorAssign h a i (unat b) ! a ! k = (if k = i then h ! a ! k XOR b else h ! a ! k)"
  by (simp add: xorAssign_def at_def toInt32_def byte_xor)

lemma getNonce_loop_props:
  assumes "nonce < length h" and "chunkIndex \<noteq> nonce"
  shows "length (getNonce_loop h nonce chunkIndex i) = length h
       \<and> (\<forall>r. r \<noteq> nonce \<longrightarrow> getNonce_loop h nonce chunkIndex i ! r = h ! r)
       \<and> length (getNonce_loop h nonce chunkIndex i ! nonce) = length (h ! nonce)
       \<and> (\<forall>k < length (h ! nonce). getNonce_loop h nonce chunkIndex i ! nonce ! k =
            (if 4 + i \<le> k \<and> k < 4 + length (h ! chunkIndex)
             then h ! nonce ! k XOR h ! chunkIndex ! (k - 4) else h ! nonce ! k))"
  using assms
proof (induction h nonce chunkIndex i rule: getNonce_loop.induct)
  case (1 h nonce chunkIndex i)
  show ?case
  proof (cases "i < length (h ! chunkIndex)")
    case False
    then have "getNonce_loop h nonce chunkIndex i = h"
      by (subst getNonce_loop.simps) simp
    with False show ?thesis by auto
  next
    case True
    let ?b = "h ! chunkIndex ! i"
    let ?h1 = "xorAssign h nonce (4 + i) (toInt32 (at (h ! chunkIndex) (int i)))"
    have v: "toInt32 (at (h ! chunkIndex) (int i)) = unat ?b"
      using True by (simp add: at_def toInt32_def)
    have step: "getNonce_loop h nonce chunkIndex i = getNonce_loop ?h1 nonce chunkIndex (i + 1)"
      using True by (subst getNonce_loop.simps) simp
    have ih: "length (getNonce_loop ?h1 nonce chunkIndex (i + 1)) = length ?h1
       \<and> (\<forall>r. r \<noteq> nonce \<longrightarrow> getNonce_loop ?h1 nonce chunkIndex (i + 1) ! r = ?h1 ! r)
       \<and> length (getNonce_loop ?h1 nonce chunkIndex (i + 1) ! nonce) = length (?h1 ! nonce)
       \<and> (\<forall>k < length (?h1 ! nonce). getNonce_loop ?h1 nonce chunkIndex (i + 1) ! nonce ! k =
            (if 4 + (i + 1) \<le> k \<and> k < 4 + length (?h1 ! chunkIndex)
             then ?h1 ! nonce ! k XOR ?h1 ! chunkIndex ! (k - 4) else ?h1 ! nonce ! k))"
      using "1.IH" [OF True] "1.prems" by simp
    have c: "?h1 ! chunkIndex = h ! chunkIndex"
      using "1.prems" by (simp add: xorAssign_other)
    have n: "k < length (h ! nonce) \<Longrightarrow>
        ?h1 ! nonce ! k = (if k = 4 + i then h ! nonce ! k XOR ?b else h ! nonce ! k)" for k
      unfolding v using "1.prems" by (simp add: xorAssign_same)
    show ?thesis
      unfolding step using ih True
      by (auto simp: c n xorAssign_other)
  qed
qed

section \<open>Claim about the GCM nonce\<close>

text \<open>
  C8 (per-chunk nonce).  For a 12-byte \<open>iv\<close> and an 8-byte \<open>chunkIndex\<close>,
  \<open>GCM.getNonce(iv, chunkIndex)\<close> returns a new 12-byte array: its first 4 bytes are those
  of \<open>iv\<close>, its last 8 bytes are the last 8 bytes of \<open>iv\<close> XORed byte by byte with
  \<open>chunkIndex\<close>, and the arrays \<open>iv\<close> and \<open>chunkIndex\<close> hold the bytes they held before.
\<close>

theorem getNonce_spec:
  assumes "iv < length h" and "chunkIndex < length h"
    and "length (h ! iv) = 12" and "length (h ! chunkIndex) = 8"
  shows "case getNonce h iv chunkIndex of (h', nonce) \<Rightarrow>
           length (h' ! nonce) = 12
         \<and> take 4 (h' ! nonce) = take 4 (h ! iv)
         \<and> drop 4 (h' ! nonce) = map2 (XOR) (drop 4 (h ! iv)) (h ! chunkIndex)
         \<and> nonce \<noteq> iv \<and> nonce \<noteq> chunkIndex
         \<and> h' ! iv = h ! iv \<and> h' ! chunkIndex = h ! chunkIndex"
proof -
  let ?h1 = "h @ [h ! iv]"
  let ?n = "length h"
  let ?h' = "getNonce_loop ?h1 ?n chunkIndex 0"
  have g: "getNonce h iv chunkIndex = (?h', ?n)"
    by (simp add: getNonce_def slice_def)
  have p: "length ?h' = length ?h1
       \<and> (\<forall>r. r \<noteq> ?n \<longrightarrow> ?h' ! r = ?h1 ! r)
       \<and> length (?h' ! ?n) = length (?h1 ! ?n)
       \<and> (\<forall>k < length (?h1 ! ?n). ?h' ! ?n ! k =
            (if 4 + 0 \<le> k \<and> k < 4 + length (?h1 ! chunkIndex)
             then ?h1 ! ?n ! k XOR ?h1 ! chunkIndex ! (k - 4) else ?h1 ! ?n ! k))"
    using assms(2) by (intro getNonce_loop_props) simp_all
  have n1: "?h1 ! ?n = h ! iv" by simp
  have c1: "?h1 ! chunkIndex = h ! chunkIndex" using assms(2) by (simp add: nth_append)
  have i1: "?h1 ! iv = h ! iv" using assms(1) by (simp add: nth_append)
  have len: "length (?h' ! ?n) = 12" using p assms(3) by simp
  have el: "k < 12 \<Longrightarrow> ?h' ! ?n ! k =
      (if 4 \<le> k then h ! iv ! k XOR h ! chunkIndex ! (k - 4) else h ! iv ! k)" for k
    using p assms(3,4) unfolding n1 c1 by auto
  have t: "take 4 (?h' ! ?n) = take 4 (h ! iv)"
    by (rule nth_equalityI) (simp_all add: len assms(3) el)
  have d: "drop 4 (?h' ! ?n) = map2 (XOR) (drop 4 (h ! iv)) (h ! chunkIndex)"
    by (rule nth_equalityI) (simp_all add: len assms(3,4) el)
  have u: "?h' ! iv = h ! iv" "?h' ! chunkIndex = h ! chunkIndex"
    using p assms(1,2) i1 c1 by auto
  show ?thesis
    unfolding g using len t d u assms(1,2) by simp
qed


theorem getNonce_spec_witness:
  "case getNonce [[1, 2, 3, 4, 5, 6, 7, 8, 9, 10, 11, 12], [0, 0, 0, 0, 0, 0, 1, 3]] 0 1 of
     (h', nonce) \<Rightarrow>
           length (h' ! nonce) = 12
         \<and> take 4 (h' ! nonce) = [1, 2, 3, 4]
         \<and> drop 4 (h' ! nonce) = [5, 6, 7, 8, 9, 10, 10, 15]
         \<and> h' ! 0 = [1, 2, 3, 4, 5, 6, 7, 8, 9, 10, 11, 12]"
  using getNonce_spec
    [of 0 "[[1, 2, 3, 4, 5, 6, 7, 8, 9, 10, 11, 12], [0, 0, 0, 0, 0, 0, 1, 3]]" 1]
  by (simp add: split_def)

section \<open>Facts about util.canonicalizeEOL\<close>

lemma CR_neq_LF [simp]: "CR \<noteq> LF" "LF \<noteq> CR"
  by (simp_all add: CR_def LF_def)

lemma indexOf_takeWhile:
  "i \<le> length bytes \<Longrightarrow>
     indexOf bytes v i =
       (if v \<in> set (drop i bytes)
        then int (i + length (takeWhile (\<lambda>b. b \<noteq> v) (drop i bytes))) else - 1)"
proof (induction bytes v i rule: indexOf.induct)
  case (1 bytes v i)
  show ?case
  proof (cases "i < length bytes")
    case True
    then have d: "drop i bytes = bytes ! i # drop (Suc i) bytes"
      by (simp add: Cons_nth_drop_Suc)
    show ?thesis
    proof (cases "bytes ! i = v")
      case True
      with \<open>i < length bytes\<close> d show ?thesis
        by (subst indexOf.simps) simp
    next
      case False
      with \<open>i < length bytes\<close> "1.IH" d show ?thesis
        by (subst indexOf.simps) simp
    qed
  next
    case False
    with "1.prems" show ?thesis
      by (subst indexOf.simps) simp
  qed
qed

lemma bareLF_append:
  "bareLF pos p (xs @ ys) =
     bareLF pos p xs @ bareLF (pos + length xs) (if xs = [] then p else last xs = CR) ys"
  by (induction xs arbitrary: pos p) auto

lemma insertCR_append:
  "insertCR p (xs @ ys) = insertCR p xs @ insertCR (if xs = [] then p else last xs = CR) ys"
  by (induction xs arbitrary: p) auto

lemma bareLF_noLF: "LF \<notin> set xs \<Longrightarrow> bareLF pos p xs = []"
  by (induction xs arbitrary: pos p) auto

lemma insertCR_id: "bareLF pos p xs = [] \<Longrightarrow> insertCR p xs = xs"
  by (induction xs arbitrary: pos p) (auto split: if_splits)

lemma bareLF_Cons:
  "bareLF pos p xs = idx # more \<Longrightarrow>
     \<exists>pre suf. xs = pre @ LF # suf \<and> bareLF pos p pre = [] \<and> idx = pos + length pre + 1
        \<and> \<not> (if pre = [] then p else last pre = CR) \<and> more = bareLF idx False suf"
proof (induction xs arbitrary: pos p)
  case Nil
  then show ?case by simp
next
  case (Cons b bs)
  show ?case
  proof (cases "b = LF \<and> \<not> p")
    case True
    with Cons.prems have "idx = Suc pos" "more = bareLF (Suc pos) False bs" by auto
    with True show ?thesis
      by (intro exI [of _ "[]"] exI [of _ bs]) simp
  next
    case False
    with Cons.prems have "bareLF (Suc pos) (b = CR) bs = idx # more" by auto
    from Cons.IH [OF this] obtain pre suf where
      *: "bs = pre @ LF # suf" "bareLF (Suc pos) (b = CR) pre = []" "idx = Suc pos + length pre + 1"
         "\<not> (if pre = [] then b = CR else last pre = CR)" "more = bareLF idx False suf"
      by blast
    with False show ?thesis
      by (intro exI [of _ "b # pre"] exI [of _ suf]) auto
  qed
qed

lemma split_first:
  assumes "v \<in> set xs"
  shows "\<exists>suf. xs = takeWhile (\<lambda>b. b \<noteq> v) xs @ v # suf"
proof -
  have dw: "dropWhile (\<lambda>b. b \<noteq> v) xs \<noteq> []"
    using assms by (simp add: dropWhile_eq_Nil_conv)
  then have "hd (dropWhile (\<lambda>b. b \<noteq> v) xs) = v"
    using hd_dropWhile [OF dw] by simp
  with dw obtain suf where "dropWhile (\<lambda>b. b \<noteq> v) xs = v # suf"
    by (cases "dropWhile (\<lambda>b. b \<noteq> v) xs") auto
  then have "xs = takeWhile (\<lambda>b. b \<noteq> v) xs @ v # suf"
    using takeWhile_dropWhile_id [of "\<lambda>b. b \<noteq> v" xs] by simp
  then show ?thesis ..
qed

lemma drop_split:
  assumes "i \<le> length bytes" and "drop i bytes = pre @ x # suf"
  shows "length bytes = i + length pre + 1 + length suf"
    and "bytes ! (i + length pre) = x"
    and "drop (i + length pre + 1) bytes = suf"
    and "pre \<noteq> [] \<Longrightarrow> bytes ! (i + length pre - 1) = last pre"
proof -
  define front where "front = take i bytes"
  have b: "bytes = front @ pre @ x # suf"
    unfolding front_def using assms(2) append_take_drop_id [of i bytes] by simp
  have l: "length front = i" unfolding front_def using assms(1) by simp
  show "length bytes = i + length pre + 1 + length suf"
    unfolding b by (simp add: l)
  have "(front @ pre @ x # suf) ! (length front + length pre) = x"
    by (simp add: nth_append)
  then show "bytes ! (i + length pre) = x" unfolding b l .
  have "drop (length front + length pre + 1) (front @ pre @ x # suf) = suf"
    by simp
  then show "drop (i + length pre + 1) bytes = suf" unfolding b l .
  show "bytes ! (i + length pre - 1) = last pre" if "pre \<noteq> []"
  proof -
    from that have k: "0 < length pre" by simp
    then have e: "i + length pre - 1 = i + (length pre - 1)" by arith
    have "(front @ pre @ x # suf) ! (length front + (length pre - 1))
        = (pre @ x # suf) ! (length pre - 1)"
      by (rule nth_append_length_plus)
    then have "bytes ! (i + (length pre - 1)) = (pre @ x # suf) ! (length pre - 1)"
      unfolding b l .
    also have "\<dots> = pre ! (length pre - 1)" using k by (simp add: nth_append)
    also have "\<dots> = last pre" using that by (simp add: last_conv_nth)
    finally show ?thesis by (simp only: e)
  qed
qed

lemma at_nat: "n < length bytes \<Longrightarrow> at bytes (int n) = Some (bytes ! n)"
  by (simp add: at_def)

lemma eolIndices_stop:
  assumes "i \<le> length bytes" and "LF \<notin> set (drop i bytes)"
  shows "eolIndices bytes i acc = acc"
proof -
  have "indexOf bytes LF i = - 1"
    using assms by (simp add: indexOf_takeWhile)
  then show ?thesis by (subst eolIndices.simps) simp
qed

lemma eolIndices_step:
  assumes "i \<le> length bytes" and "drop i bytes = pre @ LF # suf" and "LF \<notin> set pre"
  shows "eolIndices bytes i acc =
     eolIndices bytes (i + length pre + 1)
       (if (if pre = [] then at bytes (int i - 1) = Some CR else last pre = CR)
        then acc else acc @ [i + length pre + 1])"
proof -
  note sp = drop_split [OF assms(1,2)]
  have "takeWhile (\<lambda>b. b \<noteq> LF) (pre @ LF # suf) = pre"
    using assms(3) by (induction pre) auto
  moreover have "LF \<in> set (drop i bytes)" unfolding assms(2) by simp
  ultimately have ix: "indexOf bytes LF i = int (i + length pre)"
    using assms(1,2) by (simp add: indexOf_takeWhile)
  have before: "(at bytes (int (i + length pre) + 1 - 2) = Some CR)
      = (if pre = [] then at bytes (int i - 1) = Some CR else last pre = CR)"
  proof (cases "pre = []")
    case True
    then show ?thesis by simp
  next
    case False
    then have k: "0 < length pre" by simp
    then have "1 \<le> i + length pre" by arith
    then have e: "int (i + length pre) + 1 - 2 = int (i + length pre - 1)"
      by (simp add: of_nat_diff)
    have "i + length pre - 1 < length bytes" using sp(1) by simp
    then have "at bytes (int (i + length pre - 1)) = Some (bytes ! (i + length pre - 1))"
      by (rule at_nat)
    with sp(4) [OF False] False show ?thesis unfolding e by simp
  qed
  have n: "nat (int (i + length pre) + 1) = i + length pre + 1" by simp
  show ?thesis
    by (subst eolIndices.simps) (simp only: ix Let_def before n, simp)
qed

lemma eolIndices_bareLF:
  "i \<le> length bytes \<Longrightarrow>
     eolIndices bytes i acc = acc @ bareLF i (at bytes (int i - 1) = Some CR) (drop i bytes)"
proof (induction "length bytes - i" arbitrary: i acc rule: less_induct)
  case less
  let ?p = "at bytes (int i - 1) = Some CR"
  show ?case
  proof (cases "LF \<in> set (drop i bytes)")
    case False
    with less.prems show ?thesis by (simp add: eolIndices_stop bareLF_noLF)
  next
    case True
    define pre where "pre = takeWhile (\<lambda>b. b \<noteq> LF) (drop i bytes)"
    from split_first [OF True] obtain suf where rest: "drop i bytes = pre @ LF # suf"
      unfolding pre_def by blast
    have noLF: "LF \<notin> set pre" unfolding pre_def by (auto dest: set_takeWhileD)
    note sp = drop_split [OF less.prems rest]
    define p' where "p' = (if pre = [] then ?p else last pre = CR)"
    define i' where "i' = i + length pre + 1"
    define acc' where "acc' = (if p' then acc else acc @ [i'])"
    have step: "eolIndices bytes i acc = eolIndices bytes i' acc'"
      unfolding acc'_def p'_def i'_def by (rule eolIndices_step [OF less.prems rest noLF])
    have i': "i' \<le> length bytes" "length bytes - i' < length bytes - i"
      unfolding i'_def using sp(1) by simp_all
    have "at bytes (int i' - 1) = at bytes (int (i + length pre))"
      unfolding i'_def by simp
    also have "\<dots> = Some (bytes ! (i + length pre))"
      using sp(1) by (intro at_nat) simp
    also have "\<dots> = Some LF"
      using sp(2) by simp
    finally have after: "(at bytes (int i' - 1) = Some CR) = False" by simp
    have d: "drop i' bytes = suf" unfolding i'_def by (rule sp(3))
    have "eolIndices bytes i' acc' =
        acc' @ bareLF i' (at bytes (int i' - 1) = Some CR) (drop i' bytes)"
      by (rule less.hyps [OF i'(2) i'(1)])
    then have ih: "eolIndices bytes i' acc' = acc' @ bareLF i' False suf"
      by (simp only: after d)
    have "bareLF i ?p (drop i bytes) = bareLF i ?p pre @ bareLF (i + length pre) p' (LF # suf)"
      unfolding rest p'_def by (simp only: bareLF_append)
    also have "\<dots> = (if p' then [] else [i']) @ bareLF i' False suf"
      using noLF unfolding i'_def by (simp add: bareLF_noLF)
    finally have b: "bareLF i ?p (drop i bytes) = (if p' then [] else [i']) @ bareLF i' False suf" .
    have "eolIndices bytes i acc = acc' @ bareLF i' False suf"
      by (simp only: step ih)
    then show ?thesis
      unfolding b by (simp add: acc'_def)
  qed
qed

lemma subarray_nat:
  "a \<le> b \<Longrightarrow> b \<le> length bytes \<Longrightarrow> subarray bytes (int a) (int b) = take (b - a) (drop a bytes)"
  by (simp add: subarray_def relIndex_def)

lemma typedSet_append:
  "length A = j \<Longrightarrow> length src \<le> length B \<Longrightarrow>
     typedSet (A @ B) src j = Inr (A @ src @ drop (length src) B)"
  by (simp add: typedSet_def)

lemma storeAt_append: "length A = n \<Longrightarrow> storeAt (A @ x # C) (int n) v = A @ v # C"
  using list_update_length [of A x C v] by (auto simp: storeAt_def)

lemma normalize_loop_fill:
  "i \<le> length indices \<Longrightarrow>
     normalize_loop bytes indices i normalized j =
       fill bytes (orZero indices (int i - 1)) (drop i indices) normalized j"
proof (induction "length indices - i" arbitrary: i normalized j rule: less_induct)
  case less
  show ?case
  proof (cases "i < length indices")
    case False
    with less.prems show ?thesis
      by (subst normalize_loop.simps) simp
  next
    case True
    have d: "drop i indices = indices ! i # drop (Suc i) indices"
      using True by (simp add: Cons_nth_drop_Suc)
    have o: "orZero indices (int (Suc i) - 1) = indices ! i"
      using True by (simp add: orZero_def)
    have ih: "normalize_loop bytes indices (Suc i) n k =
        fill bytes (indices ! i) (drop (Suc i) indices) n k" for n k
      using less.hyps [of "Suc i" n k] True unfolding o by simp
    show ?thesis
      using True unfolding d
      by (subst normalize_loop.simps) (simp add: ih Let_def split: sum.splits)
  qed
qed

lemma fill_result:
  assumes "prev \<le> length bytes"
    and "idxs = bareLF prev p (drop prev bytes)"
    and "length normalized = j + (length bytes - prev) + length idxs"
  shows "(case fill bytes prev idxs normalized j of
            Inl e \<Rightarrow> Inl e
          | Inr (filled, j') \<Rightarrow> typedSet filled (subarrayFrom bytes (int (last (prev # idxs)))) j')
         = Inr (take j normalized @ insertCR p (drop prev bytes))"
  using assms
proof (induction idxs arbitrary: prev p normalized j)
  case Nil
  then have "insertCR p (drop prev bytes) = drop prev bytes"
    by (metis insertCR_id)
  moreover have "typedSet normalized (drop prev bytes) j = Inr (take j normalized @ drop prev bytes)"
    using Nil.prems(3) by (simp add: typedSet_def)
  ultimately show ?case
    using Nil.prems(1) by (simp add: subarrayFrom_drop)
next
  case (Cons idx more)
  from bareLF_Cons [OF Cons.prems(2) [symmetric]] obtain pre suf where
    rest: "drop prev bytes = pre @ LF # suf" and pre: "bareLF prev p pre = []"
    and idx: "idx = prev + length pre + 1"
    and p': "\<not> (if pre = [] then p else last pre = CR)"
    and more: "more = bareLF idx False suf"
    by blast
  note sp = drop_split [OF Cons.prems(1) rest]
  define A where "A = take j normalized"
  define B where "B = drop j normalized"
  have AB: "normalized = A @ B" unfolding A_def B_def by simp
  have lA: "length A = j" unfolding A_def using Cons.prems(3) by simp
  have lB: "length B = length pre + 1 + length suf + 1 + length more"
    unfolding B_def using Cons.prems(3) sp(1) by simp
  define D where "D = drop (length pre + 1) B"
  have lD: "length D = length suf + 1 + length more" unfolding D_def using lB by simp
  then obtain d D' where D: "D = d # D'" by (cases D) auto
  have lD': "length D' = length suf + length more" using lD D by simp
  have sub: "subarray bytes (int prev) (int idx) = pre @ [LF]"
  proof -
    have "subarray bytes (int prev) (int idx) = take (idx - prev) (drop prev bytes)"
      using idx sp(1) by (intro subarray_nat) simp_all
    also have "\<dots> = pre @ [LF]" unfolding rest idx by simp
    finally show ?thesis .
  qed
  have n1: "typedSet normalized (pre @ [LF]) j = Inr (A @ pre @ [LF] @ D)"
    unfolding AB D_def using lA lB by (subst typedSet_append) simp_all
  have n2: "storeAt (A @ pre @ [LF] @ D) (int (j + length (pre @ [LF])) - 1) CR = A @ pre @ [CR] @ D"
  proof -
    have "storeAt ((A @ pre) @ LF # D) (int (j + length pre)) CR = (A @ pre) @ CR # D"
      by (rule storeAt_append) (simp add: lA)
    then show ?thesis by simp
  qed
  have n3: "storeAt (A @ pre @ [CR] @ D) (int (j + length (pre @ [LF]))) LF
      = A @ pre @ [CR, LF] @ D'"
  proof -
    have "storeAt ((A @ pre @ [CR]) @ d # D') (int (j + length pre + 1)) LF
        = (A @ pre @ [CR]) @ LF # D'"
      by (rule storeAt_append) (simp add: lA)
    then show ?thesis unfolding D by simp
  qed
  define N where "N = A @ pre @ [CR, LF] @ D'"
  have step: "fill bytes prev (idx # more) normalized j = fill bytes idx more N (j + length pre + 2)"
    unfolding N_def by (simp only: fill.simps Let_def sub n1 sum.case n2 n3) simp
  have "(case fill bytes idx more N (j + length pre + 2) of
            Inl e \<Rightarrow> Inl e
          | Inr (filled, j') \<Rightarrow> typedSet filled (subarrayFrom bytes (int (last (idx # more)))) j')
         = Inr (take (j + length pre + 2) N @ insertCR False (drop idx bytes))"
  proof (rule Cons.IH)
    show "idx \<le> length bytes" using idx sp(1) by simp
    show "more = bareLF idx False (drop idx bytes)"
      using more sp(3) idx by simp
    show "length N = j + length pre + 2 + (length bytes - idx) + length more"
      unfolding N_def using lA lD' idx sp(1) by simp
  qed
  moreover have "take (j + length pre + 2) N = A @ pre @ [CR, LF]"
    unfolding N_def using lA by simp
  moreover have "insertCR p (drop prev bytes) = pre @ [CR, LF] @ insertCR False (drop idx bytes)"
  proof -
    have "insertCR p (pre @ LF # suf) =
        insertCR p pre @ insertCR (if pre = [] then p else last pre = CR) (LF # suf)"
      by (rule insertCR_append)
    moreover have "insertCR p pre = pre" using pre by (rule insertCR_id)
    moreover have "drop idx bytes = suf" using sp(3) idx by simp
    ultimately show ?thesis unfolding rest using p' by simp
  qed
  moreover have "last (prev # idx # more) = last (idx # more)" by simp
  ultimately show ?case
    unfolding step A_def by (simp only: append_assoc)
qed

lemma fill_result_ex:
  assumes "idxs = bareLF 0 False bytes" and "length normalized = length bytes + length idxs"
  shows "\<exists>filled j. fill bytes 0 idxs normalized 0 = Inr (filled, j)
           \<and> typedSet filled (subarrayFrom bytes (int (last (0 # idxs)))) j
               = Inr (insertCR False bytes)"
proof -
  have "(case fill bytes 0 idxs normalized 0 of
            Inl e \<Rightarrow> Inl e
          | Inr (filled, j') \<Rightarrow> typedSet filled (subarrayFrom bytes (int (last (0 # idxs)))) j')
         = Inr (take 0 normalized @ insertCR False (drop 0 bytes))"
    by (rule fill_result) (simp_all add: assms)
  then show ?thesis
    by (cases "fill bytes 0 idxs normalized 0") auto
qed

lemma endsWithCR:
  "(at bytes (int (length bytes) - 1) = Some CR) = (bytes \<noteq> [] \<and> last bytes = CR)"
proof (cases "bytes = []")
  case True
  then show ?thesis by (simp add: at_def)
next
  case False
  then have "int (length bytes) - 1 = int (length bytes - 1)" "length bytes - 1 < length bytes"
    by (simp_all add: of_nat_diff Suc_leI)
  then have "at bytes (int (length bytes) - 1) = Some (bytes ! (length bytes - 1))"
    by (simp only: at_nat)
  with False show ?thesis by (simp add: last_conv_nth)
qed

lemma subarray_butlast: "subarray bytes 0 (- 1) = butlast bytes"
proof -
  have "nat (max (int n - 1) 0) = n - 1" for n :: nat by arith
  then show ?thesis
    by (simp add: subarray_def relIndex_def butlast_conv_take)
qed

lemma normalize_body:
  "(if length (eolIndices bytes 0 []) = 0 then Inr (e, bytes)
    else case normalize_loop bytes (eolIndices bytes 0 []) 0
                (replicate (length bytes + length (eolIndices bytes 0 [])) 0) 0 of
           Inl err \<Rightarrow> Inl err
         | Inr (filled, j) \<Rightarrow>
             (case typedSet filled
                     (subarrayFrom bytes
                        (int (orZero (eolIndices bytes 0 [])
                                (int (length (eolIndices bytes 0 [])) - 1)))) j of
                Inl err \<Rightarrow> Inl err
              | Inr out \<Rightarrow> Inr (e, out)))
   = Inr (e, insertCR False bytes)"
proof -
  define indices where "indices = eolIndices bytes 0 []"
  have ind: "indices = bareLF 0 False bytes"
    unfolding indices_def using eolIndices_bareLF [of 0 bytes "[]"] by (simp add: at_def)
  show ?thesis
    unfolding indices_def [symmetric]
  proof (cases "indices = []")
    case True
    then have "insertCR False bytes = bytes" using ind by (metis insertCR_id)
    with True show "(if length indices = 0 then Inr (e, bytes)
        else case normalize_loop bytes indices 0 (replicate (length bytes + length indices) 0) 0 of
           Inl err \<Rightarrow> Inl err
         | Inr (filled, j) \<Rightarrow>
             (case typedSet filled
                     (subarrayFrom bytes (int (orZero indices (int (length indices) - 1)))) j of
                Inl err \<Rightarrow> Inl err
              | Inr out \<Rightarrow> Inr (e, out)))
       = Inr (e, insertCR False bytes)"
      by simp
  next
    case False
    let ?n = "replicate (length bytes + length indices) (0 :: byte)"
    from fill_result_ex [OF ind, of ?n] obtain filled j where
      f: "fill bytes 0 indices ?n 0 = Inr (filled, j)"
      and t: "typedSet filled (subarrayFrom bytes (int (last (0 # indices)))) j
               = Inr (insertCR False bytes)"
      by auto
    have "nat (int (length indices) - 1) = length indices - 1" by arith
    then have l: "orZero indices (int (length indices) - 1) = last (0 # indices)"
      using False by (simp add: orZero_def last_conv_nth)
    have "normalize_loop bytes indices 0 ?n 0 = Inr (filled, j)"
      using normalize_loop_fill [of 0 indices bytes ?n 0] f by (simp add: orZero_def)
    with False t show "(if length indices = 0 then Inr (e, bytes)
        else case normalize_loop bytes indices 0 (replicate (length bytes + length indices) 0) 0 of
           Inl err \<Rightarrow> Inl err
         | Inr (filled, j) \<Rightarrow>
             (case typedSet filled
                     (subarrayFrom bytes (int (orZero indices (int (length indices) - 1)))) j of
                Inl err \<Rightarrow> Inl err
              | Inr out \<Rightarrow> Inr (e, out)))
       = Inr (e, insertCR False bytes)"
      by (simp add: l)
  qed
qed

lemma canonicalizeChunk_insertCR:
  "canonicalizeChunk carry chunk =
     (let bytes1 = (if carry then CR # chunk else chunk)
      in if bytes1 \<noteq> [] \<and> last bytes1 = CR
         then Inr (True, insertCR False (butlast bytes1))
         else Inr (False, insertCR False bytes1))"
  unfolding canonicalizeChunk_def Let_def normalize_body endsWithCR subarray_butlast
  by (simp add: concatUint8Array_def)

lemma insertCR_CR: "insertCR p (CR # xs) = CR # insertCR True xs"
  by simp

lemma transformEOL_insertCR:
  "transformEOL carry chunks =
     Inr (insertCR False ((if carry then [CR] else []) @ concat chunks))"
proof (induction chunks arbitrary: carry)
  case Nil
  show ?case by simp
next
  case (Cons chunk rest)
  define bytes1 where "bytes1 = (if carry then CR # chunk else chunk)"
  have all: "(if carry then [CR] else []) @ concat (chunk # rest) = bytes1 @ concat rest"
    unfolding bytes1_def by simp
  show ?case
  proof (cases "bytes1 \<noteq> [] \<and> last bytes1 = CR")
    case True
    then have b: "bytes1 = butlast bytes1 @ [CR]"
      by (metis append_butlast_last_id)
    have "insertCR False (bytes1 @ concat rest)
        = insertCR False (butlast bytes1 @ CR # concat rest)"
      by (subst b) simp
    also have "\<dots> = insertCR False (butlast bytes1) @ CR # insertCR True (concat rest)"
      by (simp add: insertCR_append)
    finally have "insertCR False (bytes1 @ concat rest)
        = insertCR False (butlast bytes1) @ insertCR False ([CR] @ concat rest)"
      by simp
    moreover have "canonicalizeChunk carry chunk = Inr (True, insertCR False (butlast bytes1))"
      unfolding canonicalizeChunk_insertCR Let_def bytes1_def [symmetric]
      by (rule if_P [OF True])
    ultimately show ?thesis
      unfolding all using Cons.IH [of True] by simp
  next
    case False
    then have "insertCR False (bytes1 @ concat rest)
        = insertCR False bytes1 @ insertCR False (concat rest)"
      by (auto simp: insertCR_append)
    moreover have "canonicalizeChunk carry chunk = Inr (False, insertCR False bytes1)"
      unfolding canonicalizeChunk_insertCR Let_def bytes1_def [symmetric]
      by (rule if_not_P [OF False])
    ultimately show ?thesis
      unfolding all using Cons.IH [of False] by simp
  qed
qed

lemma insertCR_lfOnlyAfterCR: "lfOnlyAfterCR p (insertCR p xs)"
  by (induction xs arbitrary: p) auto

lemma insertCR_nonEOL: "nonEOL (insertCR p xs) = nonEOL xs"
  by (induction xs arbitrary: p) (auto simp: nonEOL_def)

lemma insertCR_canonical: "lfOnlyAfterCR p xs \<Longrightarrow> insertCR p xs = xs"
  by (induction xs arbitrary: p) auto

text \<open>The predicate \<open>lfOnlyAfterCR\<close>, position by position.\<close>

lemma lfOnlyAfterCR_nth:
  "lfOnlyAfterCR p xs \<longleftrightarrow>
     (\<forall>i<length xs. xs ! i = LF \<longrightarrow> (if i = 0 then p else xs ! (i - 1) = CR))"
proof (induction xs arbitrary: p)
  case Nil
  show ?case by simp
next
  case (Cons b bs)
  have "(\<forall>i<length (b # bs). (b # bs) ! i = LF \<longrightarrow> (if i = 0 then p else (b # bs) ! (i - 1) = CR))
      \<longleftrightarrow> (b = LF \<longrightarrow> p) \<and> (\<forall>i<length bs. bs ! i = LF \<longrightarrow> (if i = 0 then b = CR else bs ! (i - 1) = CR))"
    (is "?L \<longleftrightarrow> ?A \<and> ?R")
  proof
    assume L: ?L
    have ?A using L [rule_format, of 0] by simp
    moreover have ?R
    proof (intro allI impI)
      fix i assume "i < length bs" "bs ! i = LF"
      with L [rule_format, of "Suc i"] show "if i = 0 then b = CR else bs ! (i - 1) = CR"
        by (cases i) simp_all
    qed
    ultimately show "?A \<and> ?R" ..
  next
    assume AR: "?A \<and> ?R"
    show ?L
    proof (intro allI impI)
      fix i assume i: "i < length (b # bs)" "(b # bs) ! i = LF"
      show "if i = 0 then p else (b # bs) ! (i - 1) = CR"
      proof (cases i)
        case 0
        with i AR show ?thesis by simp
      next
        case (Suc k)
        from AR have R: ?R ..
        from i Suc have "k < length bs" "bs ! k = LF" by simp_all
        with R have "if k = 0 then b = CR else bs ! (k - 1) = CR" by blast
        with Suc show ?thesis by (cases k) simp_all
      qed
    qed
  qed
  with Cons.IH [of "b = CR"] show ?case by auto
qed

section \<open>Claim about util.canonicalizeEOL\<close>

text \<open>
  C9 (LF to CRLF).  For every input, given as any list of chunks, \<open>util.canonicalizeEOL\<close>
  does not throw and its output is the input with a CR put in front of every LF that
  does not follow a CR.  So in the output every LF follows a CR, the bytes other than
  CR and LF are those of the input in the same order, and an input in which every LF
  already follows a CR is returned unchanged.
\<close>

theorem canonicalizeEOL_crlf:
  "canonicalizeEOL chunks = Inr (insertCR False (concat chunks))
   \<and> lfOnlyAfterCR False (insertCR False (concat chunks))
   \<and> nonEOL (insertCR False (concat chunks)) = nonEOL (concat chunks)
   \<and> (lfOnlyAfterCR False (concat chunks) \<longrightarrow> insertCR False (concat chunks) = concat chunks)"
  using transformEOL_insertCR [of False chunks]
  by (simp add: canonicalizeEOL_def insertCR_lfOnlyAfterCR insertCR_nonEOL insertCR_canonical)

theorem canonicalizeEOL_crlf_witness:
  "canonicalizeEOL [[0x61, 10, 13], [10, 0x62, 10]] = Inr [0x61, 13, 10, 13, 10, 0x62, 13, 10]
   \<and> canonicalizeEOL [[0x61, 13], [10, 0x62]] = Inr [0x61, 13, 10, 0x62]"
  using canonicalizeEOL_crlf [of "[[0x61, 10, 13], [10, 0x62, 10]]"]
        canonicalizeEOL_crlf [of "[[0x61, 13], [10, 0x62]]"]
  by (simp add: CR_def LF_def)

section \<open>Facts about selection and big integers\<close>

lemma select_byte:
  "(of_int ((int (toInt32 x) AND (256 - b2n c)) OR (int (toInt32 y) AND (255 + b2n c))) :: byte)
     = of_nat (toInt32 (if c then x else y))"
proof -
  have "uint w < 256" for w :: byte
    using uint_lt2p [of w] by simp
  then have r: "0 \<le> int (toInt32 z) \<and> int (toInt32 z) < 256" for z
    by (cases z) (simp_all add: toInt32_def)
  have a: "int (toInt32 z) AND 256 = 0" for z
  proof -
    have "\<not> bit (int (toInt32 z)) 8"
      using r [of z] by (simp add: bit_iff_odd)
    then show ?thesis
      using and_exp_eq_0_iff_not_bit [of "int (toInt32 z)" 8] by simp
  qed
  have b: "int (toInt32 z) AND 255 = int (toInt32 z)" for z
  proof -
    have "int (toInt32 z) AND mask 8 = int (toInt32 z) mod 2 ^ 8"
      by (simp only: take_bit_eq_mask [symmetric] take_bit_eq_mod)
    then show ?thesis using r [of z] by (simp add: mask_eq_exp_minus_1)
  qed
  show ?thesis by (cases c) (simp_all add: b2n_def a b)
qed

lemma select_end:
  "(b2n c AND b2n x) OR ((1 - b2n c) AND b2n y) = b2n (if c then x else y)"
  by (cases c; cases x; cases y) (simp_all add: b2n_def)

lemma selectUint8Array_loop_eq:
  assumes "i \<le> length result"
  shows "selectUint8Array_loop c a b i result end =
     (take i result
        @ map (\<lambda>k. of_nat (toInt32 (at (if c then a else b) (int k)))) [i..<length result],
      end + int (length (filter (\<lambda>k. k < length (if c then a else b)) [i..<length result])))"
  using assms
proof (induction "length result - i" arbitrary: i result "end" rule: less_induct)
  case less
  let ?s = "if c then a else b"
  show ?case
  proof (cases "i < length result")
    case False
    with less.prems show ?thesis
      by (subst selectUint8Array_loop.simps) simp
  next
    case True
    let ?v = "of_nat (toInt32 (at ?s (int i))) :: byte"
    let ?r = "result[i := ?v]"
    let ?e = "end + b2n (i < length ?s)"
    have step: "selectUint8Array_loop c a b i result end
        = selectUint8Array_loop c a b (i + 1) ?r ?e"
    proof -
      have "at (if c then a else b) (int i) = (if c then at a (int i) else at b (int i))" by simp
      moreover have "(i < length (if c then a else b)) = (if c then i < length a else i < length b)"
        by simp
      ultimately show ?thesis
        using True by (subst selectUint8Array_loop.simps) (simp only: select_byte select_end if_True)
    qed
    have ih: "selectUint8Array_loop c a b (i + 1) ?r ?e =
       (take (i + 1) ?r
          @ map (\<lambda>k. of_nat (toInt32 (at ?s (int k)))) [i + 1..<length ?r],
        ?e + int (length (filter (\<lambda>k. k < length ?s) [i + 1..<length ?r])))"
      using True by (intro less.hyps) simp_all
    have t: "take (i + 1) ?r = take i result @ [?v]"
      using True by (simp add: take_Suc_conv_app_nth)
    have u: "[i..<length result] = i # [i + 1..<length result]"
      using True by (simp add: upt_conv_Cons)
    show ?thesis
      unfolding step ih t u by (simp add: b2n_def)
  qed
qed

lemma of_nat_toInt32_at: "k < length s \<Longrightarrow> (of_nat (toInt32 (at s (int k))) :: byte) = s ! k"
  by (simp add: at_def toInt32_def)

lemma selectUint8Array_eq: "selectUint8Array c a b = (if c then a else b)"
proof -
  let ?s = "if c then a else b"
  let ?L = "max (length a) (length b)"
  have L: "length ?s \<le> ?L" by simp
  have f: "filter (\<lambda>k. k < length ?s) [0..<?L] = [0..<length ?s]"
  proof -
    have "[0..<?L] = [0..<length ?s] @ [length ?s..<?L]"
      using upt_add_eq_append [of 0 "length ?s" "?L - length ?s"] L by simp
    then show ?thesis by simp
  qed
  have m: "take (length ?s) (map (\<lambda>k. of_nat (toInt32 (at ?s (int k))) :: byte) [0..<?L]) = ?s"
    by (rule nth_equalityI) (use L in \<open>simp_all add: of_nat_toInt32_at min_absorb2\<close>)
  have "selectUint8Array_loop c a b 0 (replicate ?L 0) 0 =
      (map (\<lambda>k. of_nat (toInt32 (at ?s (int k)))) [0..<?L], int (length ?s))"
    using selectUint8Array_loop_eq [of 0 "replicate ?L 0" c a b 0] f by simp
  then have "selectUint8Array c a b =
      subarray (map (\<lambda>k. of_nat (toInt32 (at ?s (int k))) :: byte) [0..<?L]) 0 (int (length ?s))"
    by (simp add: selectUint8Array_def Let_def)
  also have "\<dots> = take (length ?s) (map (\<lambda>k. of_nat (toInt32 (at ?s (int k))) :: byte) [0..<?L])"
    using L by (simp add: subarray_def relIndex_def min_absorb1)
  finally show ?thesis using m by simp
qed

lemma bnFromBytes_snoc: "bnFromBytes (bytes @ [b]) = bnFromBytes bytes * 256 + uint b"
  by (simp add: bnFromBytes_def)

lemma bnFromBytes_nonneg: "0 \<le> bnFromBytes bytes"
  by (induction bytes rule: rev_induct) (simp_all add: bnFromBytes_snoc, simp add: bnFromBytes_def)

section \<open>Claims about RSA decryption and parameter validation\<close>

text \<open>
  C4 (PKCS#1 decryption with a random payload).  When \<open>bnDecrypt\<close> reaches
  \<open>emeDecode\<close> (the ciphertext is smaller than the modulus and no big-integer operation
  raised) and the decrypted block is not a valid EME-PKCS1-v1.5 block, \<open>decrypt\<close> raises
  a decryption error when no random payload is given, and returns the random payload
  of the caller when one is given.
\<close>

theorem decrypt_padding_failure:
  assumes "bnDecrypt_block data n e d p q u rnd = Inr block" and "\<not> isValidPadding block"
  shows "decrypt data n e d p q u None rnd = Inl (Error ''Decryption error'')
       \<and> decrypt data n e d p q u (Some randomPayload) rnd = Inr randomPayload"
  using assms by (simp add: decrypt_def bnDecrypt_def emeDecode_def selectUint8Array_eq)

theorem decrypt_padding_failure_witness:
  "decrypt [2] [15] [3] [3] [3] [5] [2] None 2 = Inl (Error ''Decryption error'')
   \<and> decrypt [2] [15] [3] [3] [3] [5] [2] (Some [7, 7, 7]) 2 = Inr [7, 7, 7]"
proof -
  have "bnDecrypt_block [2] [15] [3] [3] [3] [5] [2] 2 = Inr [8]"
    by (simp add: bnDecrypt_block_def bnFromBytes_def byteLength.simps bn_mod_def bn_modExp_def
      bn_modInv_def andThen_def upt_rec)
  moreover have "\<not> isValidPadding [8]"
    by (simp add: isValidPadding_def at_def)
  ultimately show ?thesis by (rule decrypt_padding_failure)
qed

text \<open>
  C3, amended: for all parameters with \<open>q \<noteq> 0\<close> and \<open>p \<noteq> 1\<close>, \<open>validateParams\<close> does
  not throw; it returns true when \<open>p * q = n\<close>, \<open>p * u mod q = 1\<close> and, for the blinding
  value \<open>r\<close> drawn, \<open>r * d * e mod (p - 1) = r\<close> and \<open>r * d * e mod (q - 1) = r\<close>, and
  false when one of these checks fails.
\<close>

theorem validateParams_result:
  assumes "bnFromBytes q0 \<noteq> 0" and "bnFromBytes p0 \<noteq> 1"
  shows "validateParams n0 e0 d0 p0 q0 u0 r =
     Inr (bnFromBytes p0 * bnFromBytes q0 = bnFromBytes n0
          \<and> (bnFromBytes p0 * bnFromBytes u0) mod bnFromBytes q0 = 1
          \<and> (r * bnFromBytes d0 * bnFromBytes e0) mod (bnFromBytes p0 - 1) = r
          \<and> (r * bnFromBytes d0 * bnFromBytes e0) mod (bnFromBytes q0 - 1) = r)"
proof -
  define p q u where "p = bnFromBytes p0" and "q = bnFromBytes q0" and "u = bnFromBytes u0"
  have q1: "q - 1 \<noteq> 0" if "(p * u) mod q = 1"
  proof
    assume "q - 1 = 0"
    then have "q = 1" by simp
    with that show False by simp
  qed
  have p1: "p - 1 \<noteq> 0" using assms(2) unfolding p_def by simp
  have q0: "q \<noteq> 0" using assms(1) unfolding q_def .
  show ?thesis
    using q0 p1 q1
    unfolding validateParams_def Let_def bn_mod_def p_def [symmetric] q_def [symmetric]
      u_def [symmetric]
    by (auto split: sum.splits)
qed

theorem validateParams_result_witness:
  "validateParams [33] [3] [7] [3] [11] [4] 2 = Inr False
   \<and> validateParams [35] [5] [5] [5] [7] [3] 2 = Inr True
   \<and> validateParams [36] [5] [5] [5] [7] [3] 2 = Inr False"
  using validateParams_result
          [where ?n0.0 = "[33]" and ?e0.0 = "[3]" and ?d0.0 = "[7]" and ?p0.0 = "[3]"
             and ?q0.0 = "[11]" and ?u0.0 = "[4]" and r = 2]
        validateParams_result
          [where ?n0.0 = "[35]" and ?e0.0 = "[5]" and ?d0.0 = "[5]" and ?p0.0 = "[5]"
             and ?q0.0 = "[7]" and ?u0.0 = "[3]" and r = 2]
        validateParams_result
          [where ?n0.0 = "[36]" and ?e0.0 = "[5]" and ?d0.0 = "[5]" and ?p0.0 = "[5]"
             and ?q0.0 = "[7]" and ?u0.0 = "[3]" and r = 2]
  by (simp add: bnFromBytes_def)

text \<open>
  C3 (a failed check gives false, never an exception).  The checks reduce modulo \<open>q\<close>,
  \<open>p - 1\<close> and \<open>q - 1\<close>, and a reduction modulo zero raises.  With \<open>n = 0\<close>, \<open>p = 7\<close>,
  \<open>q = 0\<close>, \<open>u = 1\<close> the first check passes and the second one raises; with \<open>n = 5\<close>,
  \<open>p = 1\<close>, \<open>q = 5\<close>, \<open>u = 1\<close>, \<open>e = 1\<close>, \<open>d = 2\<close> the first two checks pass and the
  third one raises.
\<close>

theorem validateParams_throws_counterexample:
  "validateParams [0] [1] [1] [7] [0] [1] 2 = Inl (RangeError ''Division by zero'')
   \<and> validateParams [5] [1] [2] [1] [5] [1] 2 = Inl (RangeError ''Division by zero'')"
  by (simp add: validateParams_def bnFromBytes_def bn_mod_def)

section \<open>Facts about RSA signatures\<close>

lemma length_toUint8Array: "length (toUint8Array v len) = len"
  by (induction len arbitrary: v) simp_all

lemma bnFromBytes_toUint8Array:
  "0 \<le> v \<Longrightarrow> v < 256 ^ len \<Longrightarrow> bnFromBytes (toUint8Array v len) = v"
proof (induction len arbitrary: v)
  case 0
  then show ?case by (simp add: bnFromBytes_def)
next
  case (Suc len)
  have "v div 256 < 256 ^ len" using Suc.prems by (simp add: div_less_iff_less_mult)
  moreover have "0 \<le> v div 256" using Suc.prems by simp
  ultimately have "bnFromBytes (toUint8Array (v div 256) len) = v div 256" by (rule Suc.IH [rotated])
  moreover have "uint (of_int v :: byte) = v mod 256" by (simp add: uint_word_of_int)
  ultimately show ?case by (simp add: bnFromBytes_snoc)
qed

lemma toUint8Array_bnFromBytes: "toUint8Array (bnFromBytes bytes) (length bytes) = bytes"
proof (induction bytes rule: rev_induct)
  case Nil
  show ?case by simp
next
  case (snoc b bytes)
  have u: "0 \<le> uint b" "uint b < 256" using uint_lt2p [of b] by simp_all
  then have "(bnFromBytes bytes * 256 + uint b) div 256 = bnFromBytes bytes" by simp
  moreover have "(of_int (bnFromBytes bytes * 256 + uint b) :: byte) = b"
  proof -
    have "(256 :: byte) = 0" by simp
    then show ?thesis by (simp only: of_int_add of_int_mult of_int_numeral word_of_int_uint) simp
  qed
  ultimately show ?case using snoc.IH by (simp add: bnFromBytes_snoc)
qed

lemma bnFromBytes_inj:
  assumes "length a = length b" and "bnFromBytes a = bnFromBytes b"
  shows "a = b"
proof -
  have "a = toUint8Array (bnFromBytes a) (length a)"
    by (simp only: toUint8Array_bnFromBytes)
  also have "\<dots> = toUint8Array (bnFromBytes b) (length b)"
    by (simp only: assms)
  also have "\<dots> = b"
    by (simp only: toUint8Array_bnFromBytes)
  finally show ?thesis .
qed

lemma byteLength_bound: "0 \<le> v \<Longrightarrow> v < 256 ^ byteLength v"
proof (induction v rule: byteLength.induct)
  case (1 v)
  show ?case
  proof (cases "v < 256")
    case True
    then show ?thesis by (subst byteLength.simps) simp
  next
    case False
    with "1.prems" have "v div 256 < 256 ^ byteLength (v div 256)"
      by (intro "1.IH") simp_all
    then have "v < 256 * 256 ^ byteLength (v div 256)"
      by (simp add: div_less_iff_less_mult mult.commute)
    with False show ?thesis by (subst byteLength.simps) simp
  qed
qed

lemma equals_loop_eq:
  "length a = length b \<Longrightarrow> i \<le> length a \<Longrightarrow> equals_loop a b i = (drop i a = drop i b)"
proof (induction a b i rule: equals_loop.induct)
  case (1 a b i)
  show ?case
  proof (cases "i < length a")
    case False
    with "1.prems" show ?thesis by (subst equals_loop.simps) simp
  next
    case True
    then have "drop i a = a ! i # drop (Suc i) a" "drop i b = b ! i # drop (Suc i) b"
      using "1.prems" by (simp_all add: Cons_nth_drop_Suc)
    with True "1.IH" "1.prems" show ?thesis
      by (subst equals_loop.simps) auto
  qed
qed

lemma equalsUint8Array_eq: "equalsUint8Array a b = (a = b)"
  using equals_loop_eq [of a b 0] by (auto simp: equalsUint8Array_def)

lemma emsaEncode_length: "emsaEncode hh algo hashed emLen = Inr em \<Longrightarrow> length em = emLen"
  by (auto simp: emsaEncode_def Let_def split: if_splits)

lemma emsaEncode_inj:
  assumes "emsaEncode hh algo hashed emLen = Inr em" and "length hashed' = length hashed"
    and "hashed' \<noteq> hashed"
  shows "\<exists>em'. emsaEncode hh algo hashed' emLen = Inr em' \<and> em' \<noteq> em"
  using assms by (auto simp: emsaEncode_def Let_def split: if_splits)

lemma rsa_undo:
  assumes "rsaKeyPair n e d" and "0 \<le> m" and "m < n"
  shows "(m ^ nat d mod n) ^ nat e mod n = m" and "(m ^ nat e mod n) ^ nat d mod n = m"
proof -
  from assms(1) have e: "0 \<le> e" and d: "0 \<le> d"
    and inv: "m ^ nat (e * d) mod n = m"
    using assms(2,3) by (simp_all add: rsaKeyPair_def)
  have k: "nat (e * d) = nat d * nat e" "nat (e * d) = nat e * nat d"
    using e d by (simp_all add: nat_mult_distrib mult.commute)
  have "(m ^ nat d mod n) ^ nat e mod n = (m ^ nat d) ^ nat e mod n"
    by (rule power_mod)
  also have "\<dots> = m ^ nat (e * d) mod n"
    by (simp only: k(1) power_mult)
  finally show "(m ^ nat d mod n) ^ nat e mod n = m" using inv by simp
  have "(m ^ nat e mod n) ^ nat d mod n = (m ^ nat e) ^ nat d mod n"
    by (rule power_mod)
  also have "\<dots> = m ^ nat (e * d) mod n"
    by (simp only: k(2) power_mult)
  finally show "(m ^ nat e mod n) ^ nat d mod n = m" using inv by simp
qed

lemma bnVerify_value:
  assumes "bnFromBytes s0 < bnFromBytes n0" and "0 \<le> bnFromBytes e0"
    and "emsaEncode hh algo hashed (byteLength (bnFromBytes n0)) = Inr em"
  shows "bnVerify hh algo s0 n0 e0 hashed =
     Inr (toUint8Array (bnFromBytes s0 ^ nat (bnFromBytes e0) mod bnFromBytes n0)
            (byteLength (bnFromBytes n0)) = em)"
proof -
  have "bnFromBytes n0 \<noteq> 0"
    using assms(1) bnFromBytes_nonneg [of s0] by simp
  with assms show ?thesis
    by (simp add: bnVerify_def Let_def bn_modExp_def equalsUint8Array_eq)
qed

text \<open>Fermat's little theorem, by the binomial theorem, and its consequence for RSA.\<close>

lemma isPrime_coprime:
  assumes "isPrime p" and "\<not> p dvd a"
  shows "coprime p a"
proof (rule coprimeI)
  fix c assume "c dvd p" "c dvd a"
  with assms have "c = 1 \<or> c = p" by (simp add: isPrime_def)
  with \<open>c dvd a\<close> assms(2) show "is_unit c" by auto
qed

lemma isPrime_dvd_binomial:
  assumes "isPrime p" and "0 < k" and "k < p"
  shows "p dvd (p choose k)"
proof -
  have "\<not> p dvd k" using assms(2,3) by (auto dest: dvd_imp_le)
  then have "coprime p k" using assms(1) by (rule isPrime_coprime [rotated])
  moreover have "p dvd k * (p choose k)"
    using times_binomial_minus1_eq [OF assms(2), of p] by simp
  ultimately show ?thesis by (simp add: coprime_dvd_mult_right_iff)
qed

lemma fermat_step:
  assumes "isPrime p"
  shows "(a + 1) ^ p mod p = (a ^ p + 1) mod p"
proof -
  from assms have p: "1 < p" by (simp add: isPrime_def)
  let ?f = "\<lambda>k. (p choose k) * a ^ k"
  have "(a + 1) ^ p = (\<Sum>k\<le>p. ?f k)"
    using binomial [of a 1 p] by simp
  also have "{..p} = insert 0 (insert p {1..<p})" using p by auto
  also have "(\<Sum>k\<in>insert 0 (insert p {1..<p}). ?f k) = ?f 0 + (?f p + (\<Sum>k\<in>{1..<p}. ?f k))"
    using p by simp
  finally have e: "(a + 1) ^ p = (a ^ p + 1) + (\<Sum>k\<in>{1..<p}. ?f k)" by simp
  have "p dvd (\<Sum>k\<in>{1..<p}. ?f k)"
    by (rule dvd_sum) (simp add: isPrime_dvd_binomial [OF assms])
  then have "(\<Sum>k\<in>{1..<p}. ?f k) mod p = 0" by simp
  then have "((a ^ p + 1) + (\<Sum>k\<in>{1..<p}. ?f k)) mod p = (a ^ p + 1) mod p"
    by (metis mod_add_right_eq add.right_neutral)
  with e show ?thesis by simp
qed

lemma fermat_little:
  assumes "isPrime p"
  shows "a ^ p mod p = a mod p"
proof (induction a)
  case 0
  from assms have "0 < p" by (simp add: isPrime_def)
  then show ?case by (simp add: zero_power)
next
  case (Suc a)
  have "Suc a ^ p mod p = (a ^ p + 1) mod p"
    using fermat_step [OF assms, of a] by simp
  also have "\<dots> = (a ^ p mod p + 1) mod p" by (simp add: mod_Suc_eq)
  also have "\<dots> = (a mod p + 1) mod p" by (simp only: Suc.IH)
  also have "\<dots> = Suc a mod p" by (simp add: mod_Suc_eq)
  finally show ?case .
qed

lemma fermat_iterated:
  assumes "isPrime p"
  shows "a ^ (1 + j * (p - 1)) mod p = a mod p"
proof (induction j)
  case 0
  show ?case by simp
next
  case (Suc j)
  from assms have p: "0 < p" by (simp add: isPrime_def)
  then have "1 + Suc j * (p - 1) = j * (p - 1) + p" by simp
  then have "a ^ (1 + Suc j * (p - 1)) = a ^ (j * (p - 1)) * a ^ p"
    by (simp only: power_add)
  then have "a ^ (1 + Suc j * (p - 1)) mod p = (a ^ (j * (p - 1)) * (a ^ p mod p)) mod p"
    by (simp add: mod_mult_right_eq)
  also have "\<dots> = (a ^ (j * (p - 1)) * (a mod p)) mod p"
    by (simp only: fermat_little [OF assms])
  also have "\<dots> = (a ^ (j * (p - 1)) * a) mod p"
    by (simp add: mod_mult_right_eq)
  also have "\<dots> = a ^ (1 + j * (p - 1)) mod p" by (simp add: mult.commute)
  also have "\<dots> = a mod p" by (rule Suc.IH)
  finally show ?case .
qed

lemma power_mod_prime:
  assumes "isPrime p" and "0 < k" and "(p - 1) dvd (k - 1)"
  shows "a ^ k mod p = a mod p"
proof -
  from assms(3) obtain j where "k - 1 = (p - 1) * j" ..
  with assms(2) have "k = 1 + j * (p - 1)" by (simp add: mult.commute)
  then show ?thesis using fermat_iterated [OF assms(1)] by simp
qed

lemma mod_product:
  assumes "coprime p q" and "x mod p = y mod p" and "x mod q = y mod q"
  shows "(x :: nat) mod (p * q) = y mod (p * q)"
proof -
  have "int x mod int p = int y mod int p" "int x mod int q = int y mod int q"
    using assms(2,3) by (simp_all flip: zmod_int)
  then have "int p dvd int x - int y" "int q dvd int x - int y"
    by (simp_all add: mod_eq_dvd_iff)
  moreover have "coprime (int p) (int q)" using assms(1) by simp
  ultimately have "int p * int q dvd int x - int y" by (rule divides_mult)
  then have "int x mod (int p * int q) = int y mod (int p * int q)"
    by (simp add: mod_eq_dvd_iff)
  then have "int (x mod (p * q)) = int (y mod (p * q))"
    by (simp add: zmod_int)
  then show ?thesis by simp
qed

lemma power_mod_prime_list:
  assumes "\<forall>p\<in>set ps. isPrime p \<and> (p - 1) dvd (k - 1)" and "distinct ps" and "0 < k"
  shows "a ^ k mod prod_list ps = a mod prod_list ps"
  using assms(1,2)
proof (induction ps)
  case Nil
  show ?case by simp
next
  case (Cons p ps)
  then have p: "isPrime p" "(p - 1) dvd (k - 1)" by simp_all
  have "coprime p (prod_list ps)"
  proof (rule prod_list_coprime_right)
    fix x assume x: "x \<in> set ps"
    with Cons.prems have "isPrime x" "x \<noteq> p" by auto
    with p(1) have "\<not> p dvd x" by (auto simp: isPrime_def)
    with p(1) show "coprime p x" by (rule isPrime_coprime)
  qed
  moreover have "a ^ k mod p = a mod p"
    using p(1) assms(3) p(2) by (rule power_mod_prime)
  moreover have "a ^ k mod prod_list ps = a mod prod_list ps"
  proof (rule Cons.IH)
    show "\<forall>p\<in>set ps. isPrime p \<and> (p - 1) dvd (k - 1)" using Cons.prems(1) by simp
    show "distinct ps" using Cons.prems(2) by simp
  qed
  ultimately have "a ^ k mod (p * prod_list ps) = a mod (p * prod_list ps)"
    by (rule mod_product)
  then show ?case by simp
qed

lemma rsaKeyPair_prime_list:
  assumes "\<forall>p\<in>set ps. isPrime p \<and> int (p - 1) dvd (e * d - 1)" and "distinct ps"
    and "0 \<le> e" and "0 \<le> d" and "0 < e * d"
  shows "rsaKeyPair (int (prod_list ps)) e d"
proof -
  define k where "k = nat (e * d)"
  have k: "0 < k" "int k = e * d" unfolding k_def using assms(5) by simp_all
  have "int (k - 1) = e * d - 1" using k by (simp add: of_nat_diff)
  then have dv: "\<forall>p\<in>set ps. isPrime p \<and> (p - 1) dvd (k - 1)"
    using assms(1) by (metis int_dvd_int_iff)
  have "m ^ k mod int (prod_list ps) = m" if "0 \<le> m" "m < int (prod_list ps)" for m
  proof -
    define a where "a = nat m"
    have a: "m = int a" "a < prod_list ps" unfolding a_def using that by simp_all
    have "a ^ k mod prod_list ps = a"
      using power_mod_prime_list [OF dv assms(2) k(1), of a] a(2) by simp
    then have "int (a ^ k mod prod_list ps) = int a" by simp
    then show ?thesis unfolding a(1) by (simp add: zmod_int)
  qed
  then show ?thesis
    unfolding rsaKeyPair_def k_def using assms(3,4) by simp
qed

lemma rsaKeyPair_two_primes:
  assumes "isPrime p" and "isPrime q" and "p \<noteq> q" and "0 \<le> e" and "0 \<le> d"
    and "(e * d) mod int ((p - 1) * (q - 1)) = 1"
  shows "rsaKeyPair (int p * int q) e d"
proof -
  from assms(1,2) have pq: "1 < p" "1 < q" by (simp_all add: isPrime_def)
  have "int ((p - 1) * (q - 1)) dvd e * d - 1"
    using assms(6) by (metis dvd_minus_mod)
  then have "int (p - 1) dvd e * d - 1" "int (q - 1) dvd e * d - 1"
    by (auto simp: elim: dvd_mult_left dvd_mult_right)
  moreover have "0 < e * d"
  proof (rule ccontr)
    assume n: "\<not> 0 < e * d"
    have "0 \<le> e * d" using assms(4,5) by (rule mult_nonneg_nonneg)
    with n have "e * d = 0" by simp
    with assms(6) show False by simp
  qed
  ultimately have "rsaKeyPair (int (prod_list [p, q])) e d"
    using assms(1-5) by (intro rsaKeyPair_prime_list) simp_all
  then show ?thesis by simp
qed

lemma isPrime_trial: "isPrime p \<longleftrightarrow> 1 < p \<and> list_all (\<lambda>m. \<not> m dvd p) [2..<p]"
proof
  assume "isPrime p"
  then show "1 < p \<and> list_all (\<lambda>m. \<not> m dvd p) [2..<p]"
    by (auto simp: isPrime_def list_all_iff)
next
  assume r: "1 < p \<and> list_all (\<lambda>m. \<not> m dvd p) [2..<p]"
  have "m = 1 \<or> m = p" if "m dvd p" for m
  proof -
    from that r have "m \<le> p" "m \<noteq> 0" by (auto dest: dvd_imp_le intro: ccontr)
    moreover have "\<not> (2 \<le> m \<and> m < p)" using that r by (auto simp: list_all_iff)
    ultimately show ?thesis by arith
  qed
  with r show "isPrime p" by (simp add: isPrime_def)
qed

lemma rsa_sign_verify_general:
  assumes key: "rsaKeyPair (bnFromBytes n) (bnFromBytes e) (bnFromBytes d)"
    and enc: "emsaEncode hash_headers hashAlgo hashed (byteLength (bnFromBytes n)) = Inr em"
    and small: "bnFromBytes em < bnFromBytes n"
  shows "\<exists>signature.
           bnSign hash_headers hashAlgo n d hashed = Inr signature
         \<and> bnVerify hash_headers hashAlgo signature n e hashed = Inr True
         \<and> (\<forall>signature'. length signature' = length signature \<and> signature' \<noteq> signature \<longrightarrow>
               bnVerify hash_headers hashAlgo signature' n e hashed \<noteq> Inr True)
         \<and> (\<forall>hashed'. length hashed' = length hashed \<and> hashed' \<noteq> hashed \<longrightarrow>
               bnVerify hash_headers hashAlgo signature n e hashed' \<noteq> Inr True)"
proof -
  define N E D L m where "N = bnFromBytes n" and "E = bnFromBytes e" and "D = bnFromBytes d"
    and "L = byteLength N" and "m = bnFromBytes em"
  define s where "s = m ^ nat D mod N"
  define sig where "sig = toUint8Array s L"
  have m0: "0 \<le> m" unfolding m_def by (rule bnFromBytes_nonneg)
  have mN: "m < N" using small unfolding m_def N_def .
  have N0: "0 < N" using m0 mN by simp
  have E0: "0 \<le> E" and D0: "0 \<le> D" unfolding E_def D_def by (rule bnFromBytes_nonneg)+
  have key': "rsaKeyPair N E D" using key unfolding N_def E_def D_def .
  have NL: "N < 256 ^ L" unfolding L_def using N0 by (intro byteLength_bound) simp
  have lem: "length em = L" using enc unfolding L_def N_def by (rule emsaEncode_length)
  have s0: "0 \<le> s" and sN: "s < N" unfolding s_def using N0 by simp_all
  have sig_s: "bnFromBytes sig = s"
    unfolding sig_def using s0 sN NL by (intro bnFromBytes_toUint8Array) simp_all
  have lsig: "length sig = L" unfolding sig_def by (rule length_toUint8Array)
  have em_m: "toUint8Array m L = em"
    unfolding m_def lem [symmetric] by (rule toUint8Array_bnFromBytes)
  have sign: "bnSign hash_headers hashAlgo n d hashed = Inr sig"
    using enc mN N0 D0
    unfolding bnSign_def Let_def sig_def s_def m_def N_def D_def L_def
    by (simp add: bn_modExp_def)
  have sE: "s ^ nat E mod N = m"
    unfolding s_def using rsa_undo(1) [OF key' m0 mN] .
  have verify: "bnVerify hash_headers hashAlgo sig n e hashed = Inr True"
  proof -
    have "bnVerify hash_headers hashAlgo sig n e hashed =
        Inr (toUint8Array (bnFromBytes sig ^ nat (bnFromBytes e) mod bnFromBytes n)
               (byteLength (bnFromBytes n)) = em)"
      using sN E0 enc unfolding N_def E_def sig_s [symmetric]
      by (intro bnVerify_value) simp_all
    then show ?thesis
      unfolding sig_s N_def [symmetric] E_def [symmetric] L_def [symmetric] sE em_m by simp
  qed
  have tamper_sig: "bnVerify hash_headers hashAlgo sig' n e hashed \<noteq> Inr True"
    if len: "length sig' = length sig" and neq: "sig' \<noteq> sig" for sig'
  proof (cases "bnFromBytes sig' < N")
    case False
    then show ?thesis by (simp add: bnVerify_def Let_def N_def)
  next
    case True
    define s' where "s' = bnFromBytes sig'"
    have s'0: "0 \<le> s'" unfolding s'_def by (rule bnFromBytes_nonneg)
    have s'N: "s' < N" using True unfolding s'_def .
    have ne: "s' \<noteq> s"
    proof
      assume "s' = s"
      then have "bnFromBytes sig' = bnFromBytes sig" unfolding s'_def sig_s .
      with len have "sig' = sig" by (rule bnFromBytes_inj)
      with neq show False ..
    qed
    define c where "c = s' ^ nat E mod N"
    have c0: "0 \<le> c" and cN: "c < N" unfolding c_def using N0 by simp_all
    have v: "bnVerify hash_headers hashAlgo sig' n e hashed = Inr (toUint8Array c L = em)"
      unfolding c_def s'_def N_def E_def L_def
      using True E0 enc unfolding N_def E_def by (intro bnVerify_value) simp_all
    have "toUint8Array c L \<noteq> em"
    proof
      assume "toUint8Array c L = em"
      then have "bnFromBytes (toUint8Array c L) = m" unfolding m_def by simp
      moreover have "bnFromBytes (toUint8Array c L) = c"
        using c0 cN NL by (intro bnFromBytes_toUint8Array) simp_all
      ultimately have "c = m" by simp
      then have "(s' ^ nat E mod N) ^ nat D mod N = (s ^ nat E mod N) ^ nat D mod N"
        unfolding c_def sE by simp
      then have "s' = s"
        using rsa_undo(2) [OF key' s'0 s'N] rsa_undo(2) [OF key' s0 sN] by simp
      with ne show False ..
    qed
    with v show ?thesis by simp
  qed
  have tamper_hash: "bnVerify hash_headers hashAlgo sig n e hashed' \<noteq> Inr True"
    if len: "length hashed' = length hashed" and neq: "hashed' \<noteq> hashed" for hashed'
  proof -
    from emsaEncode_inj [OF enc len neq] obtain em' where
      enc': "emsaEncode hash_headers hashAlgo hashed' (byteLength (bnFromBytes n)) = Inr em'"
      and ne: "em' \<noteq> em" by blast
    have "bnVerify hash_headers hashAlgo sig n e hashed' =
        Inr (toUint8Array (bnFromBytes sig ^ nat (bnFromBytes e) mod bnFromBytes n)
               (byteLength (bnFromBytes n)) = em')"
      using sN E0 enc' unfolding N_def E_def sig_s [symmetric]
      by (intro bnVerify_value) simp_all
    then have "bnVerify hash_headers hashAlgo sig n e hashed' = Inr (em = em')"
      unfolding sig_s N_def [symmetric] E_def [symmetric] L_def [symmetric] sE em_m .
    with ne show ?thesis by auto
  qed
  show ?thesis
    using sign verify tamper_sig tamper_hash by blast
qed

lemma dvd_prod_list_member: "x \<in> set xs \<Longrightarrow> (x :: nat) dvd prod_list xs"
  by (induction xs) auto

lemma rsaKeyPair_group_order:
  assumes "\<forall>p\<in>set ps. isPrime p" and "distinct ps"
    and "0 \<le> e" and "0 \<le> d"
    and "(e * d) mod int (prod_list (map (\<lambda>p. p - 1) ps)) = 1"
  shows "rsaKeyPair (int (prod_list ps)) e d"
proof (rule rsaKeyPair_prime_list)
  let ?phi = "prod_list (map (\<lambda>p. p - 1) ps)"
  have phi: "int ?phi dvd e * d - 1"
    using assms(5) by (metis dvd_minus_mod)
  show "\<forall>p\<in>set ps. isPrime p \<and> int (p - 1) dvd e * d - 1"
  proof
    fix p assume p: "p \<in> set ps"
    then have "p - 1 \<in> set (map (\<lambda>p. p - 1) ps)" by simp
    then have "(p - 1) dvd ?phi" by (rule dvd_prod_list_member)
    then have "int (p - 1) dvd int ?phi" by simp
    then have "int (p - 1) dvd e * d - 1" using phi by (rule dvd_trans)
    with p assms(1) show "isPrime p \<and> int (p - 1) dvd e * d - 1" by simp
  qed
  show "distinct ps" by (rule assms(2))
  show "0 \<le> e" "0 \<le> d" by (rule assms(3), rule assms(4))
  show "0 < e * d"
  proof (rule ccontr)
    assume n: "\<not> 0 < e * d"
    have "0 \<le> e * d" using assms(3,4) by (rule mult_nonneg_nonneg)
    with n have "e * d = 0" by simp
    with assms(5) show False by simp
  qed
qed

section \<open>Claim about RSA signatures\<close>

text \<open>
  C2 (sign and verify).  An RSA key: the modulus \<open>n\<close> is a product of distinct primes
  (two, for the keys the module generates) and \<open>d\<close> is the inverse of \<open>e\<close> modulo the
  order of the group of units, the product of the \<open>p - 1\<close>.  For every such key and
  every hashed message
  whose EMSA-PKCS1-v1.5 encoding, for the byte length of \<open>n\<close>, is numerically smaller than
  \<open>n\<close>: \<open>bnSign\<close> returns a signature, \<open>bnVerify\<close> returns true for it, and \<open>bnVerify\<close>
  does not return true (it returns false or throws) for any other signature of the same
  length, nor for the same signature with any other hashed message of the same length.
  Flipping bits of the signature or of the hashed message gives such an array.
\<close>

theorem rsa_sign_verify:
  assumes primes: "\<forall>p\<in>set ps. isPrime p" and "distinct ps"
    and modulus: "bnFromBytes n = int (prod_list ps)"
    and inverse: "(bnFromBytes e * bnFromBytes d) mod int (prod_list (map (\<lambda>p. p - 1) ps)) = 1"
    and enc: "emsaEncode hash_headers hashAlgo hashed (byteLength (bnFromBytes n)) = Inr em"
    and small: "bnFromBytes em < bnFromBytes n"
  shows "\<exists>signature.
           bnSign hash_headers hashAlgo n d hashed = Inr signature
         \<and> bnVerify hash_headers hashAlgo signature n e hashed = Inr True
         \<and> (\<forall>signature'. length signature' = length signature \<and> signature' \<noteq> signature \<longrightarrow>
               bnVerify hash_headers hashAlgo signature' n e hashed \<noteq> Inr True)
         \<and> (\<forall>hashed'. length hashed' = length hashed \<and> hashed' \<noteq> hashed \<longrightarrow>
               bnVerify hash_headers hashAlgo signature n e hashed' \<noteq> Inr True)"
proof -
  have "rsaKeyPair (int (prod_list ps)) (bnFromBytes e) (bnFromBytes d)"
    using primes assms(2) bnFromBytes_nonneg bnFromBytes_nonneg inverse
    by (rule rsaKeyPair_group_order)
  then have "rsaKeyPair (bnFromBytes n) (bnFromBytes e) (bnFromBytes d)"
    by (simp only: modulus)
  then show ?thesis using enc small by (rule rsa_sign_verify_general)
qed

theorem rsa_sign_verify_witness:
  "\<exists>signature.
      bnSign (\<lambda>algo. [0x30]) 8 [73, 165, 73, 73, 128, 88, 54, 66, 160, 10, 156, 88, 141]
        [12, 20, 214, 161, 169, 253, 165, 116, 112, 240, 240, 240, 241] [0xAB] = Inr signature
    \<and> bnVerify (\<lambda>algo. [0x30]) 8 signature
        [73, 165, 73, 73, 128, 88, 54, 66, 160, 10, 156, 88, 141] [17] [0xAB] = Inr True
    \<and> bnVerify (\<lambda>algo. [0x30]) 8 signature
        [73, 165, 73, 73, 128, 88, 54, 66, 160, 10, 156, 88, 141] [17] [0xAA] \<noteq> Inr True"
proof -
  let ?n = "[73, 165, 73, 73, 128, 88, 54, 66, 160, 10, 156, 88, 141] :: uint8array"
  let ?d = "[12, 20, 214, 161, 169, 253, 165, 116, 112, 240, 240, 240, 241] :: uint8array"
  let ?ps = "[3, 5, 7, 11, 13, 17, 19, 23, 29, 31, 37, 41, 43, 53, 61, 67, 71, 73, 79, 89, 113] :: nat list"
  have primes: "\<forall>p\<in>set ?ps. isPrime p"
    unfolding isPrime_trial by code_simp
  have dist: "distinct ?ps" by simp
  have n: "bnFromBytes ?n = int (prod_list ?ps)"
    by (simp add: bnFromBytes_def)
  have inv: "(bnFromBytes [17] * bnFromBytes ?d) mod int (prod_list (map (\<lambda>p. p - 1) ?ps)) = 1"
    by (simp add: bnFromBytes_def)
  have len: "byteLength (bnFromBytes ?n) = 13"
    by (simp add: bnFromBytes_def byteLength.simps)
  have enc: "emsaEncode (\<lambda>algo. [0x30]) 8 [0xAB] (byteLength (bnFromBytes ?n))
      = Inr [0, 1, 255, 255, 255, 255, 255, 255, 255, 255, 0, 0x30, 0xAB]"
    unfolding len by (simp add: emsaEncode_def numeral_eq_Suc)
  have small: "bnFromBytes [0, 1, 255, 255, 255, 255, 255, 255, 255, 255, 0, 0x30, 0xAB]
      < bnFromBytes ?n"
    by (simp add: bnFromBytes_def)
  from rsa_sign_verify [OF primes dist n inv enc small] obtain signature where
    s: "bnSign (\<lambda>algo. [0x30]) 8 ?n ?d [0xAB] = Inr signature"
    and v: "bnVerify (\<lambda>algo. [0x30]) 8 signature ?n [17] [0xAB] = Inr True"
    and h: "\<forall>hashed'. length hashed' = length [0xAB :: byte] \<and> hashed' \<noteq> [0xAB] \<longrightarrow>
               bnVerify (\<lambda>algo. [0x30]) 8 signature ?n [17] hashed' \<noteq> Inr True"
    by blast
  from h have "bnVerify (\<lambda>algo. [0x30]) 8 signature ?n [17] [0xAA] \<noteq> Inr True"
    by simp
  with s v show ?thesis by blast
qed

end
